theory Spec2Isabelle
  imports Main "HOL-Library.Word" "HOL-Library.AList"
begin

unbundle bit_operations_syntax

section \<open>Strings and runes\<close>

text \<open>
  A Go \<open>rune\<close> is an \<open>int32\<close> holding a code point; it is modelled as an \<open>int\<close>.
  A Go \<open>string\<close> is modelled as the list of the code points of a valid UTF-8 string.
  The source scans strings for the ASCII brackets that open and close a chord and for the
  hyphen only, and an ASCII byte never occurs inside a multi-byte UTF-8 sequence, so
  scanning bytes and scanning code points find the same positions. Where the source
  counts bytes (\<open>len(part)\<close>) or reads one (\<open>part[0]\<close>), the model computes the UTF-8
  length and the first UTF-8 byte of the code points.
\<close>

type_synonym rune = int
type_synonym gostring = "rune list"

definition rn :: "char \<Rightarrow> rune" where
  "rn c = of_char c"

definition str :: "string \<Rightarrow> gostring" where
  "str s = map rn s"

definition valid_rune :: "rune \<Rightarrow> bool" where
  "valid_rune r = (0 \<le> r \<and> r \<le> 1114111 \<and> \<not> (55296 \<le> r \<and> r \<le> 57343))"

definition string_of_rune :: "rune \<Rightarrow> gostring" where
  \<comment> \<open>Go's conversion \<open>string(r)\<close>: an invalid code point becomes U+FFFD.\<close>
  "string_of_rune r = [if valid_rune r then r else 65533]"

definition utf8_len :: "rune \<Rightarrow> nat" where
  "utf8_len r = (if r < 128 then 1 else if r < 2048 then 2 else if r < 65536 then 3 else 4)"

definition byte_len :: "gostring \<Rightarrow> nat" where
  \<comment> \<open>Go's \<open>len(s)\<close> on a string: the number of bytes.\<close>
  "byte_len s = sum_list (map utf8_len s)"

definition utf8_first_byte :: "rune \<Rightarrow> rune" where
  \<comment> \<open>the first byte of the UTF-8 encoding of a code point, as a rune\<close>
  "utf8_first_byte r =
     (if r < 128 then r
      else if r < 2048 then 192 + r div 64
      else if r < 65536 then 224 + r div 4096
      else 240 + r div 262144)"

definition ToLower_rune :: "(rune \<Rightarrow> rune) \<Rightarrow> rune \<Rightarrow> rune" where
  \<comment> \<open>\<open>unicode.ToLower\<close>: ASCII is computed; the case table of the Go standard library
      for code points from 128 on is not part of the repository and is the parameter.\<close>
  "ToLower_rune tbl r =
     (if r < 128 then (if rn CHR ''A'' \<le> r \<and> r \<le> rn CHR ''Z'' then r + 32 else r)
      else tbl r)"

definition ToLower :: "(rune \<Rightarrow> rune) \<Rightarrow> gostring \<Rightarrow> gostring" where
  "ToLower tbl s = map (ToLower_rune tbl) s"

fun Split :: "rune \<Rightarrow> gostring \<Rightarrow> gostring list" where
  \<comment> \<open>\<open>strings.Split(s, sep)\<close> for a one-character separator\<close>
  "Split c [] = [[]]"
| "Split c (x # xs) =
     (if x = c then [] # Split c xs
      else (case Split c xs of p # ps \<Rightarrow> (x # p) # ps | [] \<Rightarrow> [[x]]))"

fun Join :: "gostring list \<Rightarrow> gostring \<Rightarrow> gostring" where
  \<comment> \<open>\<open>strings.Join(parts, sep)\<close>\<close>
  "Join [] sep = []"
| "Join [p] sep = p"
| "Join (p # q # ps) sep = p @ sep @ Join (q # ps) sep"

section \<open>Keys\<close>

type_synonym Modifier = "8 word"
type_synonym Special = "8 word"

definition ModNone :: Modifier where "ModNone = 0"
definition ModCtrl :: Modifier where "ModCtrl = push_bit 1 1"
definition ModAlt :: Modifier where "ModAlt = push_bit 2 1"
definition ModShift :: Modifier where "ModShift = push_bit 3 1"

definition SpecialNone :: Special where "SpecialNone = 0"
definition SpecialEscape :: Special where "SpecialEscape = 1"
definition SpecialEnter :: Special where "SpecialEnter = 2"
definition SpecialTab :: Special where "SpecialTab = 3"
definition SpecialSpace :: Special where "SpecialSpace = 4"
definition SpecialBackspace :: Special where "SpecialBackspace = 5"
definition SpecialUp :: Special where "SpecialUp = 6"
definition SpecialDown :: Special where "SpecialDown = 7"
definition SpecialLeft :: Special where "SpecialLeft = 8"
definition SpecialRight :: Special where "SpecialRight = 9"
definition SpecialHome :: Special where "SpecialHome = 10"
definition SpecialEnd :: Special where "SpecialEnd = 11"
definition SpecialPageUp :: Special where "SpecialPageUp = 12"
definition SpecialPageDown :: Special where "SpecialPageDown = 13"
definition SpecialInsert :: Special where "SpecialInsert = 14"
definition SpecialDelete :: Special where "SpecialDelete = 15"
definition SpecialF1 :: Special where "SpecialF1 = 16"
definition SpecialF2 :: Special where "SpecialF2 = 17"
definition SpecialF3 :: Special where "SpecialF3 = 18"
definition SpecialF4 :: Special where "SpecialF4 = 19"
definition SpecialF5 :: Special where "SpecialF5 = 20"
definition SpecialF6 :: Special where "SpecialF6 = 21"
definition SpecialF7 :: Special where "SpecialF7 = 22"
definition SpecialF8 :: Special where "SpecialF8 = 23"
definition SpecialF9 :: Special where "SpecialF9 = 24"
definition SpecialF10 :: Special where "SpecialF10 = 25"
definition SpecialF11 :: Special where "SpecialF11 = 26"
definition SpecialF12 :: Special where "SpecialF12 = 27"

lemmas Mod_defs = ModNone_def ModCtrl_def ModAlt_def ModShift_def

lemmas Special_defs =
  SpecialNone_def SpecialEscape_def SpecialEnter_def SpecialTab_def SpecialSpace_def
  SpecialBackspace_def SpecialUp_def SpecialDown_def SpecialLeft_def SpecialRight_def
  SpecialHome_def SpecialEnd_def SpecialPageUp_def SpecialPageDown_def SpecialInsert_def
  SpecialDelete_def SpecialF1_def SpecialF2_def SpecialF3_def SpecialF4_def SpecialF5_def
  SpecialF6_def SpecialF7_def SpecialF8_def SpecialF9_def SpecialF10_def SpecialF11_def
  SpecialF12_def

record Key =
  Rune :: rune
  Mod :: Modifier
  Special :: Special

definition Key0 :: Key where
  \<comment> \<open>the zero value \<open>Key{}\<close>\<close>
  "Key0 = \<lparr>Rune = 0, Mod = ModNone, Special = SpecialNone\<rparr>"

definition specialToVim :: "(Special \<times> string) list" where
  "specialToVim =
    [(SpecialEscape, ''Esc''), (SpecialEnter, ''CR''), (SpecialTab, ''Tab''),
     (SpecialSpace, ''Space''), (SpecialBackspace, ''BS''), (SpecialUp, ''Up''),
     (SpecialDown, ''Down''), (SpecialLeft, ''Left''), (SpecialRight, ''Right''),
     (SpecialHome, ''Home''), (SpecialEnd, ''End''), (SpecialPageUp, ''PageUp''),
     (SpecialPageDown, ''PageDown''), (SpecialInsert, ''Insert''), (SpecialDelete, ''Del''),
     (SpecialF1, ''F1''), (SpecialF2, ''F2''), (SpecialF3, ''F3''), (SpecialF4, ''F4''),
     (SpecialF5, ''F5''), (SpecialF6, ''F6''), (SpecialF7, ''F7''), (SpecialF8, ''F8''),
     (SpecialF9, ''F9''), (SpecialF10, ''F10''), (SpecialF11, ''F11''), (SpecialF12, ''F12'')]"

definition vimToSpecial :: "(string \<times> Special) list" where
  "vimToSpecial =
    [(''esc'', SpecialEscape), (''escape'', SpecialEscape), (''cr'', SpecialEnter),
     (''enter'', SpecialEnter), (''return'', SpecialEnter), (''tab'', SpecialTab),
     (''space'', SpecialSpace), (''bs'', SpecialBackspace), (''backspace'', SpecialBackspace),
     (''up'', SpecialUp), (''down'', SpecialDown), (''left'', SpecialLeft),
     (''right'', SpecialRight), (''home'', SpecialHome), (''end'', SpecialEnd),
     (''pageup'', SpecialPageUp), (''pagedown'', SpecialPageDown), (''insert'', SpecialInsert),
     (''del'', SpecialDelete), (''delete'', SpecialDelete),
     (''f1'', SpecialF1), (''f2'', SpecialF2), (''f3'', SpecialF3), (''f4'', SpecialF4),
     (''f5'', SpecialF5), (''f6'', SpecialF6), (''f7'', SpecialF7), (''f8'', SpecialF8),
     (''f9'', SpecialF9), (''f10'', SpecialF10), (''f11'', SpecialF11), (''f12'', SpecialF12)]"

definition specialToVim_lookup :: "Special \<Rightarrow> gostring" where
  \<comment> \<open>\<open>specialToVim[s]\<close>: a missing key of a Go map reads as the zero value, the empty string\<close>
  "specialToVim_lookup s = (case map_of specialToVim s of Some n \<Rightarrow> str n | None \<Rightarrow> [])"

definition vimToSpecial_lookup :: "gostring \<Rightarrow> Special option" where
  \<comment> \<open>\<open>special, ok := vimToSpecial[lower]\<close>\<close>
  "vimToSpecial_lookup s = map_of (map (\<lambda>(n, sp). (str n, sp)) vimToSpecial) s"

definition String :: "Key \<Rightarrow> gostring" where
  "String k =
    (if Special k = SpecialNone \<and> Mod k = ModNone \<and> Rune k \<noteq> 0 then string_of_rune (Rune k)
     else
       let parts = (if Mod k AND ModCtrl \<noteq> 0 then [str ''C''] else [])
                 @ (if Mod k AND ModAlt \<noteq> 0 then [str ''A''] else [])
                 @ (if Mod k AND ModShift \<noteq> 0 then [str ''S''] else []);
           keyPart = (if Special k \<noteq> SpecialNone then specialToVim_lookup (Special k)
                      else if Rune k \<noteq> 0 then string_of_rune (Rune k) else [])
       in if parts \<noteq> [] \<or> Special k \<noteq> SpecialNone
          then str ''<'' @ Join (parts @ [keyPart]) (str ''-'') @ str ''>''
          else keyPart)"

section \<open>The pattern compiler\<close>

definition parseVimKey_part :: "(rune \<Rightarrow> rune) \<Rightarrow> bool \<Rightarrow> gostring \<Rightarrow> Key \<Rightarrow> Key" where
  \<comment> \<open>one iteration of the loop of \<open>parseVimKey\<close>; \<open>nonfinal\<close> is \<open>i < len(parts)-1\<close>\<close>
  "parseVimKey_part tbl nonfinal part key =
    (let lower = ToLower tbl part in
     if nonfinal \<and> lower = str ''c'' then key\<lparr>Mod := Mod key OR ModCtrl\<rparr>
     else if nonfinal \<and> (lower = str ''a'' \<or> lower = str ''m'') then key\<lparr>Mod := Mod key OR ModAlt\<rparr>
     else if nonfinal \<and> lower = str ''s'' then key\<lparr>Mod := Mod key OR ModShift\<rparr>
     else (case vimToSpecial_lookup lower of
             Some special \<Rightarrow> key\<lparr>Special := special\<rparr>
           | None \<Rightarrow>
               if byte_len part = 1 then key\<lparr>Rune := utf8_first_byte (hd part)\<rparr>
               else if byte_len part > 0 then key\<lparr>Rune := utf8_first_byte (hd part)\<rparr>
               else key))"

fun parseVimKey_loop :: "(rune \<Rightarrow> rune) \<Rightarrow> gostring list \<Rightarrow> Key \<Rightarrow> Key" where
  \<comment> \<open>\<open>for i, part := range parts\<close>, on the parts not yet visited\<close>
  "parseVimKey_loop tbl [] key = key"
| "parseVimKey_loop tbl (part # rest) key =
     parseVimKey_loop tbl rest (parseVimKey_part tbl (rest \<noteq> []) part key)"

definition parseVimKey :: "(rune \<Rightarrow> rune) \<Rightarrow> gostring \<Rightarrow> Key" where
  "parseVimKey tbl s = parseVimKey_loop tbl (Split (rn CHR ''-'') s) Key0"

function ParsePattern_loop :: "(rune \<Rightarrow> rune) \<Rightarrow> gostring \<Rightarrow> Key list" where
  \<comment> \<open>the loop \<open>for i < len(runes)\<close>, on the runes from \<open>i\<close> on\<close>
  "ParsePattern_loop tbl [] = []"
| "ParsePattern_loop tbl (c # cs) =
     (if c = rn CHR ''<'' \<and> rn CHR ''>'' \<in> set cs
      then parseVimKey tbl (takeWhile (\<lambda>x. x \<noteq> rn CHR ''>'') cs)
             # ParsePattern_loop tbl (tl (dropWhile (\<lambda>x. x \<noteq> rn CHR ''>'') cs))
      else Key0\<lparr>Rune := c\<rparr> # ParsePattern_loop tbl cs)"
  by pat_completeness auto
termination
proof (relation "measure (\<lambda>(tbl, s). length s)")
  show "wf (measure (\<lambda>(tbl, s). length s))" by simp
next
  fix tbl :: "rune \<Rightarrow> rune" and c :: rune and cs :: gostring
  have "length (tl (dropWhile (\<lambda>x. x \<noteq> rn CHR ''>'') cs)) \<le> length cs"
    using length_dropWhile_le [of "\<lambda>x. x \<noteq> rn CHR ''>''" cs] by simp
  then show "((tbl, tl (dropWhile (\<lambda>x. x \<noteq> rn CHR ''>'') cs)), (tbl, c # cs))
      \<in> measure (\<lambda>(tbl, s). length s)"
    by simp
next
  fix tbl :: "rune \<Rightarrow> rune" and c :: rune and cs :: gostring
  show "((tbl, cs), (tbl, c # cs)) \<in> measure (\<lambda>(tbl, s). length s)"
    by simp
qed

definition ParsePattern :: "(rune \<Rightarrow> rune) \<Rightarrow> gostring \<Rightarrow> Key list" where
  "ParsePattern tbl pattern = (if pattern = [] then [] else ParsePattern_loop tbl pattern)"

section \<open>The match engine\<close>

text \<open>
  A handler is an opaque callback. The model names each callback by a number and records
  which one is invoked with which \<open>Match\<close>; \<open>None\<close> is the \<open>nil\<close> handler. A handler has no
  effect on the router or the input of its own.
\<close>

type_synonym Handler = nat

record Match =
  Keys :: "Key list"
  Count :: int

text \<open>
  The trie is a tree of uniquely owned nodes, so it is a value. The Go map \<open>children\<close> is
  an association list read with \<open>map_of\<close> and written with \<open>AList.update\<close>;
  \<open>len(node.children) > 0\<close> is \<open>children node \<noteq> []\<close>.
\<close>

datatype trieNode = Node (children: "(Key \<times> trieNode) list") (handler: "Handler option")

record namedBinding =
  defaultPattern :: gostring
  currentPattern :: gostring
  handler_nb :: "Handler option"

record Router =
  root :: trieNode
  timeout :: int
  name :: gostring
  hasEscapeSequences :: bool
  aliases :: "(gostring \<rightharpoonup> gostring) option"
  namedBindings :: "gostring \<rightharpoonup> namedBinding"
  bindingOrder :: "gostring list"

definition NewRouter :: Router where
  \<comment> \<open>the timeout is \<open>2 * time.Second\<close>, in nanoseconds\<close>
  "NewRouter = \<lparr>root = Node [] None, timeout = 2 * 1000000000, name = [],
     hasEscapeSequences = False, aliases = None, namedBindings = Map.empty,
     bindingOrder = []\<rparr>"

definition HasEscapeSequences :: "Router \<Rightarrow> bool" where
  "HasEscapeSequences r = hasEscapeSequences r"

definition generatesEscapeSequence :: "Key \<Rightarrow> bool" where
  "generatesEscapeSequence k =
    (if Special k \<in> set [SpecialUp, SpecialDown, SpecialLeft, SpecialRight,
          SpecialHome, SpecialEnd, SpecialPageUp, SpecialPageDown,
          SpecialInsert, SpecialDelete,
          SpecialF1, SpecialF2, SpecialF3, SpecialF4, SpecialF5, SpecialF6,
          SpecialF7, SpecialF8, SpecialF9, SpecialF10, SpecialF11, SpecialF12]
     then True
     else if Mod k AND ModAlt \<noteq> 0 then True
     else False)"

definition SetAlias :: "(rune \<Rightarrow> rune) \<Rightarrow> gostring \<Rightarrow> gostring \<Rightarrow> Router \<Rightarrow> Router" where
  "SetAlias tbl nm expansion r =
    (let al = (case aliases r of None \<Rightarrow> Map.empty | Some m \<Rightarrow> m)
     in r\<lparr>aliases := Some (al(ToLower tbl nm \<mapsto> expansion))\<rparr>)"

function expandAliases_loop ::
  "(rune \<Rightarrow> rune) \<Rightarrow> (gostring \<rightharpoonup> gostring) \<Rightarrow> gostring \<Rightarrow> gostring" where
  \<comment> \<open>the loop \<open>for i < len(pattern)\<close>, on the pattern from \<open>i\<close> on\<close>
  "expandAliases_loop tbl al [] = []"
| "expandAliases_loop tbl al (c # cs) =
     (if c = rn CHR ''<'' then
        (if rn CHR ''>'' \<notin> set cs then c # expandAliases_loop tbl al cs
         else
           let nm = takeWhile (\<lambda>x. x \<noteq> rn CHR ''>'') cs;
               rest = tl (dropWhile (\<lambda>x. x \<noteq> rn CHR ''>'') cs)
           in (case al (ToLower tbl nm) of
                 Some expansion \<Rightarrow> expansion
               | None \<Rightarrow> c # nm @ [rn CHR ''>''])
              @ expandAliases_loop tbl al rest)
      else c # expandAliases_loop tbl al cs)"
  by pat_completeness auto
termination
proof (relation "measure (\<lambda>(tbl, al, s). length s)")
  show "wf (measure (\<lambda>(tbl, al, s). length s))" by simp
next
  fix tbl :: "rune \<Rightarrow> rune" and al :: "gostring \<rightharpoonup> gostring" and c :: rune and cs :: gostring
  show "((tbl, al, cs), (tbl, al, c # cs)) \<in> measure (\<lambda>(tbl, al, s). length s)"
    by simp
next
  fix tbl :: "rune \<Rightarrow> rune" and al :: "gostring \<rightharpoonup> gostring" and c :: rune and cs :: gostring
    and x xa :: gostring
  assume "xa = tl (dropWhile (\<lambda>x. x \<noteq> rn CHR ''>'') cs)"
  then show "((tbl, al, xa), (tbl, al, c # cs)) \<in> measure (\<lambda>(tbl, al, s). length s)"
    using length_dropWhile_le [of "\<lambda>x. x \<noteq> rn CHR ''>''" cs] by simp
next
  fix tbl :: "rune \<Rightarrow> rune" and al :: "gostring \<rightharpoonup> gostring" and c :: rune and cs :: gostring
  show "((tbl, al, cs), (tbl, al, c # cs)) \<in> measure (\<lambda>(tbl, al, s). length s)"
    by simp
qed

definition expandAliases :: "(rune \<Rightarrow> rune) \<Rightarrow> Router \<Rightarrow> gostring \<Rightarrow> gostring" where
  "expandAliases tbl r pattern =
    (case aliases r of None \<Rightarrow> pattern | Some al \<Rightarrow> expandAliases_loop tbl al pattern)"

fun registerPattern_loop :: "Key list \<Rightarrow> Handler option \<Rightarrow> trieNode \<Rightarrow> trieNode" where
  \<comment> \<open>the walk \<open>for _, k := range keys\<close> from \<open>node\<close>, creating the missing children, and
      the final \<open>node.handler = h\<close>\<close>
  "registerPattern_loop [] h (Node cs old) = Node cs h"
| "registerPattern_loop (k # ks) h (Node cs old) =
     (let child = (case map_of cs k of Some c \<Rightarrow> c | None \<Rightarrow> Node [] None)
      in Node (AList.update k (registerPattern_loop ks h child) cs) old)"

definition registerPattern :: "(rune \<Rightarrow> rune) \<Rightarrow> gostring \<Rightarrow> Handler option \<Rightarrow> Router \<Rightarrow> Router" where
  "registerPattern tbl pattern h r =
    (let keys = ParsePattern tbl (expandAliases tbl r pattern) in
     if keys = [] then r
     else r\<lparr>hasEscapeSequences :=
               (if list_ex generatesEscapeSequence keys then True else hasEscapeSequences r),
            root := registerPattern_loop keys h (root r)\<rparr>)"

definition Handle :: "(rune \<Rightarrow> rune) \<Rightarrow> gostring \<Rightarrow> Handler option \<Rightarrow> Router \<Rightarrow> Router" where
  "Handle tbl pattern h r = registerPattern tbl pattern h r"

definition HandleNamed ::
  "(rune \<Rightarrow> rune) \<Rightarrow> gostring \<Rightarrow> gostring \<Rightarrow> Handler option \<Rightarrow> Router \<Rightarrow> Router" where
  "HandleNamed tbl nm dflt h r =
    registerPattern tbl dflt h
      (r\<lparr>namedBindings := (namedBindings r)(nm \<mapsto>
             \<lparr>defaultPattern = dflt, currentPattern = dflt, handler_nb = h\<rparr>),
         bindingOrder := bindingOrder r @ [nm]\<rparr>)"

fun removePattern_loop :: "Key list \<Rightarrow> trieNode \<Rightarrow> trieNode" where
  \<comment> \<open>the walk to the node, giving up where a child is missing, and \<open>node.handler = nil\<close>\<close>
  "removePattern_loop [] (Node cs old) = Node cs None"
| "removePattern_loop (k # ks) (Node cs old) =
     (case map_of cs k of
        None \<Rightarrow> Node cs old
      | Some child \<Rightarrow> Node (AList.update k (removePattern_loop ks child) cs) old)"

definition removePattern :: "(rune \<Rightarrow> rune) \<Rightarrow> gostring \<Rightarrow> Router \<Rightarrow> Router" where
  "removePattern tbl pattern r =
    (let keys = ParsePattern tbl (expandAliases tbl r pattern) in
     if keys = [] then r else r\<lparr>root := removePattern_loop keys (root r)\<rparr>)"

definition Rebind :: "(rune \<Rightarrow> rune) \<Rightarrow> gostring \<Rightarrow> gostring \<Rightarrow> Router \<Rightarrow> Router \<times> bool" where
  "Rebind tbl nm pattern r =
    (case namedBindings r nm of
       None \<Rightarrow> (r, False)
     | Some binding \<Rightarrow>
         let r1 = removePattern tbl (currentPattern binding) r;
             r2 = r1\<lparr>namedBindings := (namedBindings r1)(nm \<mapsto> binding\<lparr>currentPattern := pattern\<rparr>)\<rparr>
         in (registerPattern tbl pattern (handler_nb binding) r2, True))"

definition Reset :: "(rune \<Rightarrow> rune) \<Rightarrow> gostring \<Rightarrow> Router \<Rightarrow> Router \<times> bool" where
  "Reset tbl nm r =
    (case namedBindings r nm of
       None \<Rightarrow> (r, False)
     | Some binding \<Rightarrow>
         if currentPattern binding = defaultPattern binding then (r, True)
         else Rebind tbl nm (defaultPattern binding) r)"

fun match_loop ::
  "trieNode \<Rightarrow> Handler option \<Rightarrow> nat \<Rightarrow> nat \<Rightarrow> Key list \<Rightarrow> Handler option \<times> nat \<times> bool" where
  \<comment> \<open>\<open>match_loop node lastHandler lastConsumed i keys\<close>: the loop of \<open>match\<close> from index
      \<open>i\<close> on, and the return after it\<close>
  "match_loop node lastHandler lastConsumed i [] =
     (lastHandler, lastConsumed, children node \<noteq> [])"
| "match_loop node lastHandler lastConsumed i (k # ks) =
     (case map_of (children node) k of
        None \<Rightarrow> (if lastHandler \<noteq> None then (lastHandler, lastConsumed, False)
                 else (None, 0, False))
      | Some child \<Rightarrow>
          (if handler child \<noteq> None then match_loop child (handler child) (i + 1) (i + 1) ks
           else match_loop child lastHandler lastConsumed (i + 1) ks))"

definition match :: "Router \<Rightarrow> Key list \<Rightarrow> Handler option \<times> nat \<times> bool" where
  "match r keys = match_loop (root r) None 0 0 keys"

section \<open>The dispatch state machine\<close>

text \<open>
  \<open>Input\<close> holds its routers by pointer; the model holds their values, so the routers are
  configured before they are dispatched on. The mutex is not modelled: \<open>Dispatch\<close> is one
  atomic step on the state, which returns the new state, whether the key was handled, and
  the handler call it made before returning, if any. An armed timer is the pair of what
  \<open>time.AfterFunc\<close> was given: the duration and the count captured by the closure.
\<close>

record Timer =
  after :: int
  pendingCount :: int

record Input =
  stack :: "Router list"
  buffer :: "Key list"
  countBuffer :: gostring
  timer :: "Timer option"
  pending :: "Handler option"
  pendingKeys :: "Key list"

definition NewInput :: "Router option \<Rightarrow> Input" where
  "NewInput r =
    \<lparr>stack = (case r of None \<Rightarrow> [] | Some rt \<Rightarrow> [rt]), buffer = [], countBuffer = [],
     timer = None, pending = None, pendingKeys = []\<rparr>"

definition isCountDigit :: "Input \<Rightarrow> Key \<Rightarrow> bool" where
  "isCountDigit i k =
    (if Mod k \<noteq> ModNone \<or> Special k \<noteq> SpecialNone then False
     else if length (countBuffer i) = 0 then rn CHR ''1'' \<le> Rune k \<and> Rune k \<le> rn CHR ''9''
     else rn CHR ''0'' \<le> Rune k \<and> Rune k \<le> rn CHR ''9'')"

definition is_digit :: "rune \<Rightarrow> bool" where
  "is_digit c = (rn CHR ''0'' \<le> c \<and> c \<le> rn CHR ''9'')"

definition decimal :: "gostring \<Rightarrow> int" where
  \<comment> \<open>the number a string of decimal digits denotes\<close>
  "decimal ds = foldl (\<lambda>a d. 10 * a + (d - rn CHR ''0'')) 0 ds"

definition Atoi :: "gostring \<Rightarrow> int option" where
  \<comment> \<open>\<open>strconv.Atoi\<close> of the Go standard library, with \<open>int\<close> of 64 bits; \<open>None\<close> is a
      non-nil error: no digits, a character that is no digit, or a value out of range\<close>
  "Atoi s =
    (let neg = (s \<noteq> [] \<and> hd s = rn CHR ''-'');
         ds = (if s \<noteq> [] \<and> (hd s = rn CHR ''-'' \<or> hd s = rn CHR ''+'') then tl s else s)
     in if ds = [] \<or> \<not> list_all is_digit ds then None
        else let n = (if neg then - decimal ds else decimal ds)
             in if n < - (2 ^ 63) \<or> 2 ^ 63 - 1 < n then None else Some n)"

definition parseCount :: "Input \<Rightarrow> int" where
  "parseCount i =
    (if countBuffer i = [] then 1
     else (case Atoi (countBuffer i) of
             None \<Rightarrow> 1
           | Some n \<Rightarrow> if n < 1 then 1 else n))"

type_synonym call = "Handler \<times> Match"

definition Dispatch :: "Key \<Rightarrow> Input \<Rightarrow> Input \<times> bool \<times> call option" where
  "Dispatch key i =
    (if length (stack i) = 0 then (i, False, None)
     else
       let router = last (stack i) in
       if isCountDigit i key \<and> length (buffer i) = 0
       then (i\<lparr>countBuffer := countBuffer i @ string_of_rune (Rune key)\<rparr>, True, None)
       else
         let wasPending = (pending i \<noteq> None);
             i1 = i\<lparr>timer := None, pending := None, pendingKeys := [],
                    buffer := buffer i @ [key]\<rparr>;
             (hd_opt, consumed, partial) = match router (buffer i1)
         in if wasPending \<and> consumed < length (buffer i1) \<and> \<not> partial
            then (i1\<lparr>buffer := [], countBuffer := []\<rparr>, False, None)
            else (case hd_opt of
                    Some h \<Rightarrow>
                      if \<not> partial
                      then
                        let matchedKeys = take consumed (buffer i1);
                            i2 = i1\<lparr>buffer := drop consumed (buffer i1)\<rparr>;
                            count = parseCount i2
                        in (i2\<lparr>countBuffer := []\<rparr>, True,
                            Some (h, \<lparr>Keys = matchedKeys, Count = count\<rparr>))
                      else
                        (i1\<lparr>pending := Some h,
                            pendingKeys := take consumed (buffer i1),
                            timer := Some \<lparr>after = timeout router,
                                           pendingCount = parseCount i1\<rparr>\<rparr>,
                         True, None)
                  | None \<Rightarrow>
                      if partial then (i1, True, None)
                      else (i1\<lparr>buffer := [], countBuffer := []\<rparr>, False, None)))"

fun Dispatch_all :: "Key list \<Rightarrow> Input \<Rightarrow> Input \<times> bool list \<times> call list" where
  \<comment> \<open>\<open>Dispatch\<close> on each key in order, with no timer firing in between: the final state,
      what each call returned and the handler calls made, in order\<close>
  "Dispatch_all [] i = (i, [], [])"
| "Dispatch_all (k # ks) i =
     (case Dispatch k i of
        (i', handled, c) \<Rightarrow>
          (case Dispatch_all ks i' of
             (i'', hs, cs) \<Rightarrow>
               (i'', handled # hs, (case c of None \<Rightarrow> [] | Some x \<Rightarrow> [x]) @ cs)))"

section \<open>The terminal decoder\<close>

type_synonym byte = "8 word"

definition bt :: "char \<Rightarrow> byte" where
  "bt c = of_char c"

definition parseModifier :: "byte \<Rightarrow> Modifier" where
  "parseModifier b =
    (let n = b - bt CHR ''1'';
         mod1 = (if n AND 1 \<noteq> 0 then ModNone OR ModShift else ModNone);
         mod2 = (if n AND 2 \<noteq> 0 then mod1 OR ModAlt else mod1);
         mod3 = (if n AND 4 \<noteq> 0 then mod2 OR ModCtrl else mod2)
     in mod3)"

definition parseSingleByte :: "byte \<Rightarrow> Key" where
  "parseSingleByte b =
    (if b = 27 then Key0\<lparr>Special := SpecialEscape\<rparr>
     else if b = 13 \<or> b = 10 then Key0\<lparr>Special := SpecialEnter\<rparr>
     else if b = 9 then Key0\<lparr>Special := SpecialTab\<rparr>
     else if b = 127 \<or> b = 8 then Key0\<lparr>Special := SpecialBackspace\<rparr>
     else if b = 0 then Key0\<lparr>Rune := rn CHR '' '', Mod := ModCtrl\<rparr>
     else if b < 27 then Key0\<lparr>Rune := uint (bt CHR ''a'' + b - 1), Mod := ModCtrl\<rparr>
     else if b = 32 then Key0\<lparr>Special := SpecialSpace\<rparr>
     else Key0\<lparr>Rune := uint b\<rparr>)"

definition Index :: "byte list \<Rightarrow> byte \<Rightarrow> nat option" where
  \<comment> \<open>\<open>strings.Index(s, sep)\<close> for a one-byte separator; \<open>None\<close> is -1\<close>
  "Index s c = (if c \<in> set s then Some (length (takeWhile (\<lambda>x. x \<noteq> c) s)) else None)"

definition parseTildeSequence :: "byte list \<Rightarrow> Key" where
  "parseTildeSequence b =
    (if length b = 0 then Key0\<lparr>Special := SpecialEscape\<rparr>
     else
       let (md, numStr) =
             (case Index b (bt CHR '';'') of
                Some idx \<Rightarrow>
                  ((if idx + 1 < length b then parseModifier (b ! (idx + 1)) else ModNone),
                   take idx b)
              | None \<Rightarrow> (ModNone, b))
       in (case Atoi (map uint numStr) of
             None \<Rightarrow> Key0\<lparr>Special := SpecialEscape\<rparr>
           | Some num \<Rightarrow>
               if num = 1 then Key0\<lparr>Special := SpecialHome, Mod := md\<rparr>
               else if num = 2 then Key0\<lparr>Special := SpecialInsert, Mod := md\<rparr>
               else if num = 3 then Key0\<lparr>Special := SpecialDelete, Mod := md\<rparr>
               else if num = 4 then Key0\<lparr>Special := SpecialEnd, Mod := md\<rparr>
               else if num = 5 then Key0\<lparr>Special := SpecialPageUp, Mod := md\<rparr>
               else if num = 6 then Key0\<lparr>Special := SpecialPageDown, Mod := md\<rparr>
               else if num = 7 then Key0\<lparr>Special := SpecialHome, Mod := md\<rparr>
               else if num = 8 then Key0\<lparr>Special := SpecialEnd, Mod := md\<rparr>
               else if num \<in> set [11, 12, 13, 14, 15]
                 then Key0\<lparr>Special := SpecialF1 + of_int (num - 11), Mod := md\<rparr>
               else if num \<in> set [17, 18, 19, 20, 21]
                 then Key0\<lparr>Special := SpecialF6 + of_int (num - 17), Mod := md\<rparr>
               else if num \<in> set [23, 24]
                 then Key0\<lparr>Special := SpecialF11 + of_int (num - 23), Mod := md\<rparr>
               else Key0\<lparr>Special := SpecialEscape\<rparr>))"

definition parseCSI_modified :: "byte list \<Rightarrow> Key option" where
  \<comment> \<open>the block \<open>if len(b) >= 4 && b[0] == '1' && b[1] == ';'\<close>; \<open>None\<close> when it is left
      without a return\<close>
  "parseCSI_modified b =
    (if length b \<ge> 4 \<and> b ! 0 = bt CHR ''1'' \<and> b ! 1 = bt CHR '';'' then
       let md = parseModifier (b ! 2)
       in if b ! 3 = bt CHR ''A'' then Some (Key0\<lparr>Special := SpecialUp, Mod := md\<rparr>)
          else if b ! 3 = bt CHR ''B'' then Some (Key0\<lparr>Special := SpecialDown, Mod := md\<rparr>)
          else if b ! 3 = bt CHR ''C'' then Some (Key0\<lparr>Special := SpecialRight, Mod := md\<rparr>)
          else if b ! 3 = bt CHR ''D'' then Some (Key0\<lparr>Special := SpecialLeft, Mod := md\<rparr>)
          else if b ! 3 = bt CHR ''H'' then Some (Key0\<lparr>Special := SpecialHome, Mod := md\<rparr>)
          else if b ! 3 = bt CHR ''F'' then Some (Key0\<lparr>Special := SpecialEnd, Mod := md\<rparr>)
          else None
     else None)"

definition parseCSI :: "byte list \<Rightarrow> Key" where
  "parseCSI b =
    (if length b = 0 then Key0\<lparr>Special := SpecialEscape\<rparr>
     else if b ! 0 = bt CHR ''A'' then Key0\<lparr>Special := SpecialUp\<rparr>
     else if b ! 0 = bt CHR ''B'' then Key0\<lparr>Special := SpecialDown\<rparr>
     else if b ! 0 = bt CHR ''C'' then Key0\<lparr>Special := SpecialRight\<rparr>
     else if b ! 0 = bt CHR ''D'' then Key0\<lparr>Special := SpecialLeft\<rparr>
     else if b ! 0 = bt CHR ''H'' then Key0\<lparr>Special := SpecialHome\<rparr>
     else if b ! 0 = bt CHR ''F'' then Key0\<lparr>Special := SpecialEnd\<rparr>
     else if b ! 0 = bt CHR ''Z'' then Key0\<lparr>Special := SpecialTab, Mod := ModShift\<rparr>
     else (case parseCSI_modified b of
             Some k \<Rightarrow> k
           | None \<Rightarrow>
               if last b = bt CHR ''~'' then parseTildeSequence (butlast b)
               else Key0\<lparr>Special := SpecialEscape\<rparr>))"

definition parseSS3 :: "byte list \<Rightarrow> Key" where
  "parseSS3 b =
    (if length b = 0 then Key0\<lparr>Special := SpecialEscape\<rparr>
     else if b ! 0 = bt CHR ''P'' then Key0\<lparr>Special := SpecialF1\<rparr>
     else if b ! 0 = bt CHR ''Q'' then Key0\<lparr>Special := SpecialF2\<rparr>
     else if b ! 0 = bt CHR ''R'' then Key0\<lparr>Special := SpecialF3\<rparr>
     else if b ! 0 = bt CHR ''S'' then Key0\<lparr>Special := SpecialF4\<rparr>
     else if b ! 0 = bt CHR ''H'' then Key0\<lparr>Special := SpecialHome\<rparr>
     else if b ! 0 = bt CHR ''F'' then Key0\<lparr>Special := SpecialEnd\<rparr>
     else if b ! 0 = bt CHR ''A'' then Key0\<lparr>Special := SpecialUp\<rparr>
     else if b ! 0 = bt CHR ''B'' then Key0\<lparr>Special := SpecialDown\<rparr>
     else if b ! 0 = bt CHR ''C'' then Key0\<lparr>Special := SpecialRight\<rparr>
     else if b ! 0 = bt CHR ''D'' then Key0\<lparr>Special := SpecialLeft\<rparr>
     else Key0\<lparr>Special := SpecialEscape\<rparr>)"

definition parseEscapeSequence :: "byte list \<Rightarrow> Key" where
  "parseEscapeSequence b =
    (if length b = 1 then Key0\<lparr>Special := SpecialEscape\<rparr>
     else if length b = 2 \<and> b ! 1 \<ge> 32 \<and> b ! 1 < 127 then Key0\<lparr>Rune := uint (b ! 1), Mod := ModAlt\<rparr>
     else if length b \<ge> 3 \<and> b ! 1 = bt CHR ''['' then parseCSI (drop 2 b)
     else if length b \<ge> 3 \<and> b ! 1 = bt CHR ''O'' then parseSS3 (drop 2 b)
     else Key0\<lparr>Special := SpecialEscape\<rparr>)"

definition parseBytes :: "byte list \<Rightarrow> Key" where
  "parseBytes b =
    (if length b = 0 then Key0
     else if length b = 1 then parseSingleByte (b ! 0)
     else if b ! 0 = 27 then parseEscapeSequence b
     else Key0\<lparr>Rune := uint (b ! 0)\<rparr>)"

text \<open>
  The byte source is an \<open>io.Reader\<close> outside the repository. It is modelled by a script:
  the list of what its successive \<open>Read\<close> calls return. A \<open>chunk\<close> gives the bytes, the
  error, and \<open>waits\<close>: how many times the decoder looks for the result of an asynchronous
  read (a non-blocking receive or a wait bounded by the escape timeout) and finds nothing
  before the result is there. A blocking receive always gets the result. A \<open>Read\<close> into
  \<open>space\<close> bytes returns at most \<open>space\<close> bytes and leaves the others to the next call; a
  source whose script has run out returns \<open>io.EOF\<close>.

  \<open>readCh\<close> holds the outstanding read with its result, so \<open>readPending\<close> of the source is
  \<open>readCh \<noteq> None\<close>; the bytes travel with the result instead of through \<open>tmp\<close>. The
  buffer \<open>buf\<close> keeps its 64 bytes and its cursors \<open>pos\<close> and \<open>end\<close> as the source does
  (\<open>endp\<close> here; the field \<open>r\<close> of the source is \<open>src\<close>, its \<open>timeout\<close> is \<open>timeout_rd\<close>).
  The guarded reads of \<open>buf\<close> stay inside it, since \<open>end\<close> never passes its length; the
  one read that no guard protects, the first of \<open>ReadKey\<close>, is checked.
\<close>

datatype ioerr = EOF | IOError nat

record chunk =
  data :: "byte list"
  err :: "ioerr option"
  waits :: nat

type_synonym readResult = "byte list \<times> ioerr option \<times> nat"

datatype rk_error = Err ioerr | Panic

record Reader =
  src :: "chunk list"
  buf :: "byte list"
  pos :: int
  endp :: int
  timeout_rd :: int
  readCh :: "readResult option"
  parseEscapeSequences :: bool

definition NewReader :: "chunk list \<Rightarrow> Reader" where
  \<comment> \<open>the timeout is \<open>50 * time.Millisecond\<close>, in nanoseconds\<close>
  "NewReader s = \<lparr>src = s, buf = replicate 64 0, pos = 0, endp = 0, timeout_rd = 50 * 1000000,
     readCh = None, parseEscapeSequences = True\<rparr>"

definition SetParseEscapeSequences :: "bool \<Rightarrow> Reader \<Rightarrow> Reader" where
  "SetParseEscapeSequences parse r = r\<lparr>parseEscapeSequences := parse\<rparr>"

fun Read :: "nat \<Rightarrow> chunk list \<Rightarrow> readResult \<times> chunk list" where
  "Read space [] = (([], Some EOF, 0), [])"
| "Read space (c # cs) =
     (if length (data c) \<le> space then ((data c, err c, waits c), cs)
      else ((take space (data c), None, waits c),
            c\<lparr>data := drop space (data c), waits := 0\<rparr> # cs))"

definition shift :: "Reader \<Rightarrow> Reader" where
  \<comment> \<open>"Shift remaining bytes to start of buffer"\<close>
  "shift r =
    (let available = endp r - pos r in
     if pos r > 0 \<and> available > 0
     then r\<lparr>buf := take (nat available) (drop (nat (pos r)) (buf r)) @ drop (nat available) (buf r),
            endp := available, pos := 0\<rparr>
     else if available = 0 then r\<lparr>pos := 0, endp := 0\<rparr>
     else r)"

definition store :: "byte list \<Rightarrow> Reader \<Rightarrow> Reader" where
  \<comment> \<open>\<open>if result.n > 0 { copy(r.buf[r.end:], r.tmp[:result.n]); r.end += result.n }\<close>\<close>
  "store d r =
    (if length d > 0
     then r\<lparr>buf := take (length (buf r))
                    (take (nat (endp r)) (buf r) @ d @ drop (nat (endp r) + length d) (buf r)),
            endp := endp r + int (length d)\<rparr>
     else r)"

definition space_of :: "Reader \<Rightarrow> int" where
  \<comment> \<open>\<open>space := len(r.buf) - r.end\<close>, at most \<open>len(r.tmp)\<close>\<close>
  "space_of r = (let space = int (length (buf r)) - endp r in if space > 32 then 32 else space)"

definition startRead :: "Reader \<Rightarrow> Reader" where
  \<comment> \<open>"Start new async read with timeout"\<close>
  "startRead r =
    (if space_of r > 0 then
       (case Read (nat (space_of r)) (src r) of
          ((d, e, w), s') \<Rightarrow>
            if w = 0 then store d (r\<lparr>src := s'\<rparr>)
            else r\<lparr>src := s', readCh := Some (d, e, w - 1)\<rparr>)
     else r)"

definition ensureBytesWithTimeout :: "int \<Rightarrow> Reader \<Rightarrow> Reader" where
  "ensureBytesWithTimeout n r =
    (if endp r - pos r \<ge> n then r
     else
       let r1 = shift r in
       (case readCh r1 of
          Some (d, e, w) \<Rightarrow>
            if w = 0 then
              let r2 = store d (r1\<lparr>readCh := None\<rparr>)
              in if endp r2 - pos r2 \<ge> n then r2 else startRead r2
            else if w = 1 then store d (r1\<lparr>readCh := None\<rparr>)
            else r1\<lparr>readCh := Some (d, e, w - 2)\<rparr>
        | None \<Rightarrow> startRead r1))"

definition readMore :: "Reader \<Rightarrow> ioerr option \<times> Reader" where
  \<comment> \<open>"Try to read more", the end of \<open>ensureBytes\<close>\<close>
  "readMore r =
    (if space_of r > 0 then
       (case Read (nat (space_of r)) (src r) of
          ((d, e, w), s') \<Rightarrow>
            let r1 = store d (r\<lparr>src := s'\<rparr>)
            in if e \<noteq> None \<and> endp r1 = pos r1 then (e, r1) else (None, r1))
     else (None, r))"

definition ensureBytes :: "int \<Rightarrow> Reader \<Rightarrow> ioerr option \<times> Reader" where
  "ensureBytes n r =
    (if endp r - pos r \<ge> n then (None, r)
     else
       let r1 = shift r in
       (case readCh r1 of
          Some (d, e, w) \<Rightarrow>
            let r2 = store d (r1\<lparr>readCh := None\<rparr>)
            in if e \<noteq> None \<and> endp r2 = pos r2 then (e, r2)
               else if endp r2 - pos r2 \<ge> n then (None, r2)
               else readMore r2
        | None \<Rightarrow> readMore r1))"

definition terminator :: "byte \<Rightarrow> bool" where
  "terminator c =
    ((c \<ge> bt CHR ''A'' \<and> c \<le> bt CHR ''Z'') \<or> (c \<ge> bt CHR ''a'' \<and> c \<le> bt CHR ''z'')
     \<or> c = bt CHR ''~'')"

function csi_scan :: "byte list \<Rightarrow> int \<Rightarrow> int \<Rightarrow> int \<Rightarrow> int" where
  \<comment> \<open>the loop \<open>for seqEnd < r.end && seqEnd < r.pos+12\<close>; the value is the final \<open>seqEnd\<close>\<close>
  "csi_scan b e lim seqEnd =
    (if seqEnd < e \<and> seqEnd < lim then
       (if terminator (b ! nat seqEnd) then seqEnd + 1
        else csi_scan b e lim (seqEnd + 1))
     else seqEnd)"
  by pat_completeness auto
termination
  by (relation "measure (\<lambda>(b, e, lim, seqEnd). nat (lim - seqEnd))") auto

declare csi_scan.simps [simp del]

definition ReadKey_escape :: "Reader \<Rightarrow> Key \<times> Reader" where
  \<comment> \<open>\<open>ReadKey\<close> after a byte 27 when escape sequences are parsed\<close>
  "ReadKey_escape r0 =
    (let r1 = ensureBytesWithTimeout 1 r0 in
     if pos r1 < endp r1 then
       let nextByte = buf r1 ! nat (pos r1);
           r2 = (if nextByte = bt CHR ''O'' then ensureBytesWithTimeout 2 r1 else r1)
       in if nextByte = bt CHR ''O'' \<and> pos r2 + 1 < endp r2
          then (parseBytes [27, bt CHR ''O'', buf r2 ! nat (pos r2 + 1)], r2\<lparr>pos := pos r2 + 2\<rparr>)
          else if nextByte = bt CHR ''['' then
            let r3 = ensureBytesWithTimeout 8 r2;
                seqEnd = csi_scan (buf r3) (endp r3) (pos r3 + 12) (pos r3 + 1);
                seq = 27 # take (nat (seqEnd - pos r3)) (drop (nat (pos r3)) (buf r3))
            in (parseBytes seq, r3\<lparr>pos := seqEnd\<rparr>)
          else if nextByte \<ge> 32 \<and> nextByte < 127
          then (Key0\<lparr>Rune := uint nextByte, Mod := ModAlt\<rparr>, r2\<lparr>pos := pos r2 + 1\<rparr>)
          else (Key0\<lparr>Special := SpecialEscape\<rparr>, r2)
     else (Key0\<lparr>Special := SpecialEscape\<rparr>, r1))"

definition ReadKey :: "Reader \<Rightarrow> (rk_error + Key) \<times> Reader" where
  \<comment> \<open>\<open>r.buf[r.pos]\<close> panics when \<open>pos\<close> is outside the buffer\<close>
  "ReadKey r0 =
    (case ensureBytes 1 r0 of
       (Some e, r) \<Rightarrow> (Inl (Err e), r)
     | (None, r) \<Rightarrow>
         if pos r < 0 \<or> pos r \<ge> int (length (buf r)) then (Inl Panic, r)
         else
           let b = buf r ! nat (pos r);
               r1 = r\<lparr>pos := pos r + 1\<rparr>
           in if b = 27 then
                (if \<not> parseEscapeSequences r1 then (Inr (Key0\<lparr>Special := SpecialEscape\<rparr>), r1)
                 else (case ReadKey_escape r1 of (k, r2) \<Rightarrow> (Inr k, r2)))
              else (Inr (parseSingleByte b), r1))"

section \<open>Vocabulary of the properties\<close>

fun walk :: "trieNode \<Rightarrow> Key list \<Rightarrow> trieNode option" where
  \<comment> \<open>the node reached from \<open>node\<close> by following the keys, if every key has a child\<close>
  "walk node [] = Some node"
| "walk node (k # ks) =
     (case map_of (children node) k of None \<Rightarrow> None | Some child \<Rightarrow> walk child ks)"

definition registered :: "Router \<Rightarrow> Key list \<Rightarrow> Handler option" where
  \<comment> \<open>the handler that the trie holds for a compiled key sequence\<close>
  "registered r ks = (case walk (root r) ks of None \<Rightarrow> None | Some node \<Rightarrow> handler node)"

definition extendable :: "Router \<Rightarrow> Key list \<Rightarrow> bool" where
  \<comment> \<open>the node of a key sequence has children: a longer sequence was registered below it\<close>
  "extendable r ks = (case walk (root r) ks of None \<Rightarrow> False | Some node \<Rightarrow> children node \<noteq> [])"

definition key_of :: "char \<Rightarrow> Key" where
  \<comment> \<open>\<open>Key{Rune: c}\<close>\<close>
  "key_of c = Key0\<lparr>Rune := rn c\<rparr>"

subsection \<open>The specification of \<open>match\<close>\<close>

text \<open>
  \<open>match_spec\<close> is written from the words of the specification, not from the code. The
  walked path is made of the nodes reached by consuming one key or more (the root holds no
  handler in any router, \<open>registerPattern\<close> returns on an empty sequence before it touches
  the trie). \<open>walked\<close> is the number of keys of the buffer the walk gets through, \<open>bearing\<close>
  the depths on the walked path whose node carries a handler.
\<close>

definition walked :: "trieNode \<Rightarrow> Key list \<Rightarrow> nat" where
  "walked t ks = length (takeWhile (\<lambda>j. walk t (take j ks) \<noteq> None) [1..<Suc (length ks)])"

definition node_at :: "trieNode \<Rightarrow> Key list \<Rightarrow> nat \<Rightarrow> trieNode" where
  \<comment> \<open>the node reached by the first \<open>j\<close> keys, for \<open>j\<close> up to \<open>walked t ks\<close>\<close>
  "node_at t ks j = the (walk t (take j ks))"

definition bearing :: "trieNode \<Rightarrow> Key list \<Rightarrow> nat list" where
  "bearing t ks = filter (\<lambda>j. handler (node_at t ks j) \<noteq> None) [1..<Suc (walked t ks)]"

definition match_spec :: "trieNode \<Rightarrow> Key list \<Rightarrow> Handler option \<times> nat \<times> bool" where
  "match_spec t ks =
    (let deepest = (if bearing t ks = [] then None else Some (last (bearing t ks)))
     in (case deepest of None \<Rightarrow> None | Some d \<Rightarrow> handler (node_at t ks d),
         case deepest of None \<Rightarrow> 0 | Some d \<Rightarrow> d,
         if walked t ks < length ks then False else children (node_at t ks (length ks)) \<noteq> []))"

subsection \<open>Count prefixes\<close>




subsection \<open>Vocabulary of the round trip\<close>

definition mod_parts :: "bool \<Rightarrow> bool \<Rightarrow> bool \<Rightarrow> gostring list" where
  \<comment> \<open>the modifier letters that \<open>String\<close> writes\<close>
  "mod_parts c a s = (if c then [str ''C''] else []) @ (if a then [str ''A''] else [])
      @ (if s then [str ''S''] else [])"

subsection \<open>Sequences of operations on a router\<close>

datatype router_op =
    OpHandle gostring "Handler option"
  | OpHandleNamed gostring gostring "Handler option"
  | OpRebind gostring gostring
  | OpReset gostring
  | OpRemove gostring
  | OpSetAlias gostring gostring

fun apply_op :: "(rune \<Rightarrow> rune) \<Rightarrow> router_op \<Rightarrow> Router \<Rightarrow> Router" where
  "apply_op tbl (OpHandle p h) r = Handle tbl p h r"
| "apply_op tbl (OpHandleNamed nm p h) r = HandleNamed tbl nm p h r"
| "apply_op tbl (OpRebind nm p) r = fst (Rebind tbl nm p r)"
| "apply_op tbl (OpReset nm) r = fst (Reset tbl nm r)"
| "apply_op tbl (OpRemove p) r = removePattern tbl p r"
| "apply_op tbl (OpSetAlias nm e) r = SetAlias tbl nm e r"

fun run_ops :: "(rune \<Rightarrow> rune) \<Rightarrow> router_op list \<Rightarrow> Router \<Rightarrow> Router" where
  "run_ops tbl [] r = r"
| "run_ops tbl (x # xs) r = run_ops tbl xs (apply_op tbl x r)"

definition compile :: "(rune \<Rightarrow> rune) \<Rightarrow> Router \<Rightarrow> gostring \<Rightarrow> Key list" where
  \<comment> \<open>the key sequence a pattern compiles to on a router: aliases expanded, then parsed\<close>
  "compile tbl r p = ParsePattern tbl (expandAliases tbl r p)"

fun compiled_by :: "(rune \<Rightarrow> rune) \<Rightarrow> router_op \<Rightarrow> Router \<Rightarrow> Key list list" where
  \<comment> \<open>the key sequences that an operation hands to \<open>registerPattern\<close>\<close>
  "compiled_by tbl (OpHandle p h) r = [compile tbl r p]"
| "compiled_by tbl (OpHandleNamed nm p h) r = [compile tbl r p]"
| "compiled_by tbl (OpRebind nm p) r =
     (case namedBindings r nm of None \<Rightarrow> [] | Some b \<Rightarrow> [compile tbl r p])"
| "compiled_by tbl (OpReset nm) r =
     (case namedBindings r nm of
        None \<Rightarrow> []
      | Some b \<Rightarrow> if currentPattern b = defaultPattern b then []
                  else [compile tbl r (defaultPattern b)])"
| "compiled_by tbl (OpRemove p) r = []"
| "compiled_by tbl (OpSetAlias nm e) r = []"

fun history :: "(rune \<Rightarrow> rune) \<Rightarrow> router_op list \<Rightarrow> Router \<Rightarrow> Key list list" where
  \<comment> \<open>every key sequence registered in the course of the operations, removed since or not\<close>
  "history tbl [] r = []"
| "history tbl (x # xs) r = compiled_by tbl x r @ history tbl xs (apply_op tbl x r)"

definition escape_seq :: "Key list \<Rightarrow> bool" where
  \<comment> \<open>the sequence holds a key that is read as a multi-byte escape sequence\<close>
  "escape_seq ks = (\<exists>k \<in> set ks. generatesEscapeSequence k)"

definition paths_flagged :: "Router \<Rightarrow> bool" where
  \<comment> \<open>the invariant: a path of the trie with such a key implies the flag\<close>
  "paths_flagged r = (\<forall>ks. walk (root r) ks \<noteq> None \<and> escape_seq ks \<longrightarrow> hasEscapeSequences r)"

definition handler_at :: "trieNode \<Rightarrow> Key list \<Rightarrow> Handler option" where
  "handler_at t ks = (case walk t ks of None \<Rightarrow> None | Some node \<Rightarrow> handler node)"

definition has_children_at :: "trieNode \<Rightarrow> Key list \<Rightarrow> bool" where
  "has_children_at t ks = (case walk t ks of None \<Rightarrow> False | Some node \<Rightarrow> children node \<noteq> [])"

definition extends :: "Key list \<Rightarrow> Key list \<Rightarrow> bool" where
  \<comment> \<open>the first sequence strictly extends the second\<close>
  "extends ks' ks = (\<exists>k zs. ks' = ks @ k # zs)"

definition ops_removed :: "router_op list" where
  "ops_removed =
     [OpHandleNamed (str ''top'') (str ''gg'') (Some 2), OpHandle (str ''g'') (Some 1),
      OpRebind (str ''top'') (str ''G'')]"

definition ops_rebound :: "router_op list" where
  "ops_rebound =
     [OpHandleNamed (str ''up'') (str ''<Up>'') (Some 1), OpRebind (str ''up'') (str ''j'')]"

subsection \<open>Routers of the examples\<close>

definition router_g_gg :: Router where
  "router_g_gg = Handle id (str ''gg'') (Some 2) (Handle id (str ''g'') (Some 1) NewRouter)"

definition router_digit :: Router where
  "router_digit = Handle id (str ''1'') (Some 7) NewRouter"



subsection \<open>Vocabulary of the decoder's properties\<close>

definition first_key :: "bool \<Rightarrow> chunk list \<Rightarrow> rk_error + Key" where
  \<comment> \<open>what the first \<open>ReadKey\<close> of a new \<open>Reader\<close> over a source returns, with
      \<open>SetParseEscapeSequences(pe)\<close> applied\<close>
  "first_key pe s = fst (ReadKey (SetParseEscapeSequences pe (NewReader s)))"

definition mods :: "bool \<Rightarrow> bool \<Rightarrow> bool \<Rightarrow> Modifier" where
  \<comment> \<open>the modifier set with Ctrl, Alt and Shift in or out\<close>
  "mods c a s =
     (if c then ModCtrl else ModNone) OR (if a then ModAlt else ModNone)
       OR (if s then ModShift else ModNone)"








section \<open>Walking the trie and matching\<close>

lemma walk_append:
  "walk node (xs @ ys) = (case walk node xs of None \<Rightarrow> None | Some n \<Rightarrow> walk n ys)"
  by (induction xs arbitrary: node) (auto split: option.splits)

lemma walk_prefix_children:
  assumes "walk node (xs @ ys) = Some nd" "ys \<noteq> []"
  shows "\<exists>n. walk node xs = Some n \<and> children n \<noteq> []"
proof -
  from assms(1) obtain n where n: "walk node xs = Some n" "walk n ys = Some nd"
    by (auto simp: walk_append split: option.splits)
  from assms(2) obtain y ys' where "ys = y # ys'" by (cases ys) auto
  with n(2) have "map_of (children n) y \<noteq> None" by (auto split: option.splits)
  then have "children n \<noteq> []" by auto
  with n(1) show ?thesis by blast
qed

lemma match_loop_partial:
  "walk node xs = Some nd \<Longrightarrow> snd (snd (match_loop node lh lc i xs)) = (children nd \<noteq> [])"
  by (induction xs arbitrary: node lh lc i) (auto split: option.splits)

lemma match_loop_full:
  "walk node xs = Some nd \<Longrightarrow> xs \<noteq> [] \<Longrightarrow> handler nd = Some h \<Longrightarrow>
   match_loop node lh lc i xs = (Some h, i + length xs, children nd \<noteq> [])"
proof (induction xs arbitrary: node lh lc i)
  case Nil
  then show ?case by simp
next
  case (Cons k xs)
  from Cons.prems(1) obtain child where
    c: "map_of (children node) k = Some child" "walk child xs = Some nd"
    by (auto split: option.splits)
  show ?case
  proof (cases xs)
    case Nil
    with c Cons.prems show ?thesis by simp
  next
    case (Cons a list)
    then have "xs \<noteq> []" by simp
    from Cons.IH [OF c(2) this Cons.prems(3)] c(1) show ?thesis by simp
  qed
qed

lemma match_prefix:
  assumes "walk (root r) (pre @ k # rest) = Some nd" "rest \<noteq> []"
  shows "\<exists>ho c. match r (pre @ [k]) = (ho, c, True)"
proof -
  have "walk (root r) ((pre @ [k]) @ rest) = Some nd" using assms(1) by simp
  from walk_prefix_children [OF this assms(2)]
  obtain n where n: "walk (root r) (pre @ [k]) = Some n" "children n \<noteq> []" by blast
  from match_loop_partial [OF n(1), of None 0 0] n(2)
  have "snd (snd (match r (pre @ [k])))" by (simp add: match_def)
  then show ?thesis by (cases "match r (pre @ [k])") auto
qed

section \<open>Dispatching the keys of a pattern\<close>

lemma parseCount_cong: "countBuffer i' = countBuffer i \<Longrightarrow> parseCount i' = parseCount i"
  by (simp add: parseCount_def)

lemma Dispatch_prefix_step:
  assumes st: "stack i = [r]" "buffer i = pre"
    and w: "walk (root r) (pre @ k # rest) = Some nd" "rest \<noteq> []"
    and nd: "pre = [] \<longrightarrow> \<not> isCountDigit i k"
  shows "\<exists>i'. Dispatch k i = (i', True, None) \<and> stack i' = [r] \<and> buffer i' = pre @ [k]
           \<and> countBuffer i' = countBuffer i"
proof -
  from match_prefix [OF w] obtain ho c where m: "match r (pre @ [k]) = (ho, c, True)" by blast
  have nc: "\<not> (isCountDigit i k \<and> length (buffer i) = 0)" using nd st(2) by auto
  show ?thesis
    using st nc m by (cases ho) (simp_all add: Dispatch_def Let_def)
qed

lemma Dispatch_final_step:
  assumes st: "stack i = [r]" "buffer i = pre"
    and w: "walk (root r) (pre @ [k]) = Some nd" "handler nd = Some h" "children nd = []"
    and nd: "pre = [] \<longrightarrow> \<not> isCountDigit i k"
  shows "Dispatch k i =
    (NewInput (Some r), True, Some (h, \<lparr>Keys = pre @ [k], Count = parseCount i\<rparr>))"
proof -
  have m: "match r (pre @ [k]) = (Some h, length pre + 1, False)"
    using match_loop_full [OF w(1) _ w(2), of None 0 0] w(3) by (simp add: match_def)
  have nc: "\<not> (isCountDigit i k \<and> length (buffer i) = 0)" using nd st(2) by auto
  have pc: "parseCount (i\<lparr>timer := None, pending := None, pendingKeys := [], buffer := []\<rparr>)
      = parseCount i"
    by (simp add: parseCount_def)
  show ?thesis
    using st nc m pc by (simp add: Dispatch_def Let_def NewInput_def)
qed

lemma Dispatch_all_pattern:
  assumes "stack i = [r]" "buffer i = pre" "rest \<noteq> []"
    and "walk (root r) (pre @ rest) = Some nd" "handler nd = Some h" "children nd = []"
    and "pre = [] \<longrightarrow> \<not> isCountDigit i (hd rest)"
  shows "Dispatch_all rest i =
          (NewInput (Some r), replicate (length rest) True,
           [(h, \<lparr>Keys = pre @ rest, Count = parseCount i\<rparr>)])"
  using assms
proof (induction rest arbitrary: i pre)
  case Nil
  then show ?case by simp
next
  case (Cons k rest)
  show ?case
  proof (cases "rest = []")
    case True
    with Cons.prems have "Dispatch k i =
        (NewInput (Some r), True, Some (h, \<lparr>Keys = pre @ [k], Count = parseCount i\<rparr>))"
      by (intro Dispatch_final_step) auto
    with True show ?thesis by simp
  next
    case False
    from Cons.prems False obtain i' where
      i': "Dispatch k i = (i', True, None)" "stack i' = [r]" "buffer i' = pre @ [k]"
          "countBuffer i' = countBuffer i"
      using Dispatch_prefix_step [of i r pre k rest nd] by auto
    have "Dispatch_all rest i' =
          (NewInput (Some r), replicate (length rest) True,
           [(h, \<lparr>Keys = (pre @ [k]) @ rest, Count = parseCount i'\<rparr>)])"
      using Cons.prems False i' by (intro Cons.IH) auto
    with i' show ?thesis by (simp add: parseCount_cong [OF i'(4)])
  qed
qed

lemma Dispatch_all_prefix:
  assumes "stack i = [r]" "buffer i = pre" "rest \<noteq> []"
    and "walk (root r) (pre @ xs @ rest) = Some nd"
    and "pre = [] \<longrightarrow> xs \<noteq> [] \<longrightarrow> \<not> isCountDigit i (hd xs)"
  shows "snd (Dispatch_all xs i) = (replicate (length xs) True, [])"
  using assms
proof (induction xs arbitrary: i pre)
  case Nil
  then show ?case by simp
next
  case (Cons k xs)
  have "xs @ rest \<noteq> []" using Cons.prems(3) by simp
  with Cons.prems obtain i' where
    i': "Dispatch k i = (i', True, None)" "stack i' = [r]" "buffer i' = pre @ [k]"
    using Dispatch_prefix_step [of i r pre k "xs @ rest" nd] by auto
  have "snd (Dispatch_all xs i') = (replicate (length xs) True, [])"
    using Cons.prems i' by (intro Cons.IH [of i' "pre @ [k]"]) auto
  with i' show ?case by (auto split: prod.splits)
qed

text \<open>
  Claim C1, as amended. Let a pattern compile to the non-empty key sequence \<open>ks\<close>, let the
  trie hold the handler \<open>h\<close> for \<open>ks\<close>, let the node of \<open>ks\<close> have no children (no sequence
  that strictly extends \<open>ks\<close> was ever registered, removed since or not), and let the
  first key of \<open>ks\<close> be no unmodified digit from 1 to 9. Then dispatching the keys of \<open>ks\<close>
  in order through a new \<open>Input\<close> over the router, with no timer firing in between, returns
  handled from every call, invokes \<open>h\<close> exactly once, with \<open>Keys = ks\<close> and \<open>Count = 1\<close>, and
  leaves the \<open>Input\<close> as new: nothing buffered, no timer armed. The invocation is made by
  the last call: the calls for the keys before the last invoke nothing.
\<close>

theorem dispatch_pattern_fires_once:
  assumes "ks = ParsePattern tbl (expandAliases tbl r p)" "ks \<noteq> []"
    and "registered r ks = Some h" "\<not> extendable r ks"
    and "\<not> isCountDigit (NewInput (Some r)) (hd ks)"
  shows "Dispatch_all ks (NewInput (Some r)) =
          (NewInput (Some r), replicate (length ks) True, [(h, \<lparr>Keys = ks, Count = 1\<rparr>)])
       \<and> snd (snd (Dispatch_all (butlast ks) (NewInput (Some r)))) = []"
proof
  from assms(3) obtain nd where nd: "walk (root r) ks = Some nd" "handler nd = Some h"
    by (auto simp: registered_def split: option.splits)
  with assms(4) have ch: "children nd = []" by (simp add: extendable_def)
  have "Dispatch_all ks (NewInput (Some r)) =
          (NewInput (Some r), replicate (length ks) True,
           [(h, \<lparr>Keys = [] @ ks, Count = parseCount (NewInput (Some r))\<rparr>)])"
    using assms(2,5) nd ch by (intro Dispatch_all_pattern) (auto simp: NewInput_def)
  then show "Dispatch_all ks (NewInput (Some r)) =
          (NewInput (Some r), replicate (length ks) True, [(h, \<lparr>Keys = ks, Count = 1\<rparr>)])"
    by (simp add: parseCount_def NewInput_def)
  have w: "walk (root r) ([] @ butlast ks @ [last ks]) = Some nd"
    using nd(1) assms(2) by simp
  have d: "butlast ks \<noteq> [] \<longrightarrow> \<not> isCountDigit (NewInput (Some r)) (hd (butlast ks))"
    using assms(2,5) by (cases ks) auto
  have "snd (Dispatch_all (butlast ks) (NewInput (Some r)))
      = (replicate (length (butlast ks)) True, [])"
    using w d by (intro Dispatch_all_prefix [where rest = "[last ks]"]) (auto simp: NewInput_def)
  then show "snd (snd (Dispatch_all (butlast ks) (NewInput (Some r)))) = []" by simp
qed

theorem dispatch_pattern_fires_once_witness:
  "ParsePattern id (expandAliases id router_g_gg (str ''gg'')) = [key_of CHR ''g'', key_of CHR ''g'']
   \<and> registered router_g_gg [key_of CHR ''g'', key_of CHR ''g''] = Some 2
   \<and> \<not> extendable router_g_gg [key_of CHR ''g'', key_of CHR ''g'']
   \<and> \<not> isCountDigit (NewInput (Some router_g_gg)) (key_of CHR ''g'')
   \<and> Dispatch_all [key_of CHR ''g'', key_of CHR ''g''] (NewInput (Some router_g_gg)) =
       (NewInput (Some router_g_gg), [True, True],
        [(2, \<lparr>Keys = [key_of CHR ''g'', key_of CHR ''g''], Count = 1\<rparr>)])"
proof -
  have a: "[key_of CHR ''g'', key_of CHR ''g'']
      = ParsePattern id (expandAliases id router_g_gg (str ''gg''))"
    by code_simp
  have b: "registered router_g_gg [key_of CHR ''g'', key_of CHR ''g''] = Some 2" by code_simp
  have c: "\<not> extendable router_g_gg [key_of CHR ''g'', key_of CHR ''g'']" by code_simp
  have d: "\<not> isCountDigit (NewInput (Some router_g_gg)) (hd [key_of CHR ''g'', key_of CHR ''g''])"
    by code_simp
  from dispatch_pattern_fires_once [OF a _ b c d] a [symmetric] b c d show ?thesis by simp
qed

text \<open>
  Claim C1 as stated fails for a pattern that starts with a count digit: with the pattern
  \<open>1\<close> registered alone, the key \<open>1\<close> is taken as a count prefix; the call returns handled
  and no handler is invoked. It also fails where a longer pattern was registered and
  removed: after \<open>gg\<close> is rebound to \<open>G\<close>, the trie holds handlers for \<open>g\<close> and \<open>G\<close> only, the
  node of \<open>g\<close> keeps its child, and dispatching \<open>g\<close> arms the timer instead of invoking
  the handler.
\<close>

theorem dispatch_digit_pattern_counterexample:
  "ParsePattern id (expandAliases id router_digit (str ''1'')) = [key_of CHR ''1'']
   \<and> registered router_digit [key_of CHR ''1''] = Some 7
   \<and> \<not> extendable router_digit [key_of CHR ''1'']
   \<and> snd (Dispatch_all [key_of CHR ''1''] (NewInput (Some router_digit))) = ([True], [])
   \<and> root (run_ops id ops_removed NewRouter) =
        Node [(key_of CHR ''g'', Node [(key_of CHR ''g'', Node [] None)] (Some 1)),
              (key_of CHR ''G'', Node [] (Some 2))] None
   \<and> snd (Dispatch_all [key_of CHR ''g''] (NewInput (Some (run_ops id ops_removed NewRouter))))
        = ([True], [])"
  by code_simp

text \<open>
  Claim C6. With handlers registered for \<open>g\<close> and for \<open>gg\<close>, and \<open>x\<close> a key that has no node
  below \<open>g\<close>, dispatching \<open>g\<close> and then \<open>x\<close> (whatever count digits were accumulated before)
  invokes no handler; the call for \<open>g\<close> returns handled, the call for \<open>x\<close> returns
  unhandled, and afterwards the key buffer and the count accumulator are empty and no
  match is pending.
\<close>

theorem dispatch_broken_sequence:
  assumes "registered r [key_of CHR ''g''] = Some h1"
    and "registered r [key_of CHR ''g'', key_of CHR ''g''] = Some h2"
    and "walk (root r) [key_of CHR ''g'', x] = None"
  shows "Dispatch_all [key_of CHR ''g'', x] ((NewInput (Some r))\<lparr>countBuffer := cb\<rparr>)
           = (NewInput (Some r), [True, False], [])"
proof -
  let ?g = "key_of CHR ''g''"
  let ?i0 = "(NewInput (Some r))\<lparr>countBuffer := cb\<rparr>"
  from assms(1) obtain n where n: "map_of (children (root r)) ?g = Some n" "handler n = Some h1"
    by (auto simp: registered_def split: option.splits)
  from assms(2) n(1) obtain n2 where n2: "map_of (children n) ?g = Some n2"
    by (auto simp: registered_def split: option.splits)
  then have ne: "children n \<noteq> []" by auto
  from assms(3) n(1) have x: "map_of (children n) x = None" by (auto split: option.splits)
  have g: "\<not> isCountDigit ?i0 ?g"
    by (simp add: isCountDigit_def key_of_def Key0_def NewInput_def rn_def)
  have m1: "match r [?g] = (Some h1, 1, True)" using n ne by (simp add: match_def)
  have m2: "match r [?g, x] = (Some h1, 1, False)" using n x by (simp add: match_def)
  define i1 where "i1 = ?i0\<lparr>buffer := [?g], pending := Some h1, pendingKeys := [?g],
      timer := Some \<lparr>after = timeout r, pendingCount = parseCount ?i0\<rparr>\<rparr>"
  have d1: "Dispatch ?g ?i0 = (i1, True, None)"
    using g m1 by (simp add: Dispatch_def Let_def NewInput_def i1_def parseCount_def)
  have d2: "Dispatch x i1 = (NewInput (Some r), False, None)"
    using m2 by (simp add: Dispatch_def Let_def NewInput_def i1_def)
  show ?thesis using d1 d2 by simp
qed

theorem dispatch_broken_sequence_witness:
  "registered router_g_gg [key_of CHR ''g''] = Some 1
   \<and> registered router_g_gg [key_of CHR ''g'', key_of CHR ''g''] = Some 2
   \<and> walk (root router_g_gg) [key_of CHR ''g'', key_of CHR ''x''] = None
   \<and> Dispatch_all [key_of CHR ''g'', key_of CHR ''x'']
        ((NewInput (Some router_g_gg))\<lparr>countBuffer := str ''12''\<rparr>)
       = (NewInput (Some router_g_gg), [True, False], [])"
proof -
  have a: "registered router_g_gg [key_of CHR ''g''] = Some 1" by code_simp
  have b: "registered router_g_gg [key_of CHR ''g'', key_of CHR ''g''] = Some 2" by code_simp
  have c: "walk (root router_g_gg) [key_of CHR ''g'', key_of CHR ''x''] = None" by code_simp
  from dispatch_broken_sequence [OF a b c] a b c show ?thesis by simp
qed

text \<open>
  Claim C10. On an \<open>Input\<close> whose router stack is empty, as \<open>NewInput(nil)\<close> makes it,
  \<open>Dispatch\<close> of any key returns unhandled, invokes no handler and leaves the whole state
  (key buffer, count accumulator, pending match, timer) as it was.
\<close>

theorem dispatch_empty_stack:
  "stack i = [] \<Longrightarrow> Dispatch key i = (i, False, None)"
  by (simp add: Dispatch_def)

theorem dispatch_empty_stack_witness:
  "stack (NewInput None) = []
   \<and> Dispatch (key_of CHR ''j'') (NewInput None) = (NewInput None, False, None)"
proof -
  have "stack (NewInput None) = []" by (simp add: NewInput_def)
  with dispatch_empty_stack [of "NewInput None" "key_of CHR ''j''"] show ?thesis by simp
qed

section \<open>Decoding bytes\<close>

lemma Read_Cons_data:
  "\<exists>d s'. Read 32 (\<lparr>data = b # bs, err = e, waits = w\<rparr> # rest)
      = ((b # d, (if length bs < 32 then e else None), w), s')"
  by (cases "length bs < 32") (auto simp: take_Cons')

lemma ReadKey_first_byte:
  assumes "b \<noteq> 27"
  shows "first_key pe (\<lparr>data = b # bs, err = e, waits = w\<rparr> # rest) = Inr (parseSingleByte b)"
proof -
  obtain d s' e' where
    rd: "Read 32 (\<lparr>data = b # bs, err = e, waits = w\<rparr> # rest) = ((b # d, e', w), s')"
    using Read_Cons_data by blast
  show ?thesis
    using assms rd
    by (simp add: first_key_def ReadKey_def ensureBytes_def shift_def readMore_def space_of_def
        store_def SetParseEscapeSequences_def NewReader_def Let_def del: Read.simps)
qed

lemma ctrl_letter:
  fixes b :: byte
  assumes "1 \<le> b" "b \<le> 26"
  shows "uint (bt CHR ''a'' + b - 1) = rn CHR ''a'' + uint b - 1"
proof -
  have "uint b \<le> 26" using assms(2) by (simp add: word_le_def)
  moreover have "bt CHR ''a'' + b - 1 = 96 + b" by (simp add: bt_def)
  ultimately show ?thesis
    by (simp add: rn_def uint_word_ariths)
qed

text \<open>
  Claim C7. When the first \<open>Read\<close> of the source returns the byte \<open>b\<close> first (alone or
  followed by others, whatever the escape mode), \<open>ReadKey\<close> returns: for \<open>b\<close> from 1 to 26
  other than 8, 9, 10 and 13, Ctrl with the lowercase letter \<open>'a' + b - 1\<close>; for 0,
  Ctrl+Space; for 8 and 127, Backspace; for 9, Tab; for 10 and 13, Enter; for 32, Space.
\<close>

theorem ReadKey_single_byte:
  fixes b :: byte and pe bs e w rest
  defines "key \<equiv> first_key pe (\<lparr>data = b # bs, err = e, waits = w\<rparr> # rest)"
  shows "(1 \<le> b \<and> b \<le> 26 \<and> b \<notin> {8, 9, 10, 13} \<longrightarrow>
            key = Inr \<lparr>Rune = rn CHR ''a'' + uint b - 1, Mod = ModCtrl, Special = SpecialNone\<rparr>)
       \<and> (b = 0 \<longrightarrow> key = Inr \<lparr>Rune = rn CHR '' '', Mod = ModCtrl, Special = SpecialNone\<rparr>)
       \<and> (b = 8 \<or> b = 127 \<longrightarrow> key = Inr \<lparr>Rune = 0, Mod = ModNone, Special = SpecialBackspace\<rparr>)
       \<and> (b = 9 \<longrightarrow> key = Inr \<lparr>Rune = 0, Mod = ModNone, Special = SpecialTab\<rparr>)
       \<and> (b = 10 \<or> b = 13 \<longrightarrow> key = Inr \<lparr>Rune = 0, Mod = ModNone, Special = SpecialEnter\<rparr>)
       \<and> (b = 32 \<longrightarrow> key = Inr \<lparr>Rune = 0, Mod = ModNone, Special = SpecialSpace\<rparr>)"
proof -
  have k: "key = Inr (parseSingleByte b)" if "b \<noteq> 27"
    unfolding key_def using that by (rule ReadKey_first_byte)
  have c1: "key = Inr \<lparr>Rune = rn CHR ''a'' + uint b - 1, Mod = ModCtrl, Special = SpecialNone\<rparr>"
    if "1 \<le> b" "b \<le> 26" "b \<notin> {8, 9, 10, 13}"
  proof -
    from that(2) have "b < 27" by (simp add: word_less_def word_le_def)
    moreover from that(1) have "b \<noteq> 0" by auto
    ultimately show ?thesis
      using that k ctrl_letter [OF that(1,2)]
      by (auto simp: parseSingleByte_def Key0_def ModNone_def)
  qed
  have c2: "key = Inr \<lparr>Rune = rn CHR '' '', Mod = ModCtrl, Special = SpecialNone\<rparr>" if "b = 0"
    using that k by (simp add: parseSingleByte_def Key0_def)
  have c3: "key = Inr \<lparr>Rune = 0, Mod = ModNone, Special = SpecialBackspace\<rparr>"
    if "b = 8 \<or> b = 127"
    using that k by (auto simp: parseSingleByte_def Key0_def)
  have c4: "key = Inr \<lparr>Rune = 0, Mod = ModNone, Special = SpecialTab\<rparr>" if "b = 9"
    using that k by (simp add: parseSingleByte_def Key0_def)
  have c5: "key = Inr \<lparr>Rune = 0, Mod = ModNone, Special = SpecialEnter\<rparr>"
    if "b = 10 \<or> b = 13"
    using that k by (auto simp: parseSingleByte_def Key0_def)
  have c6: "key = Inr \<lparr>Rune = 0, Mod = ModNone, Special = SpecialSpace\<rparr>" if "b = 32"
    using that k by (simp add: parseSingleByte_def Key0_def)
  from c1 c2 c3 c4 c5 c6 show ?thesis by blast
qed

theorem ReadKey_single_byte_witness:
  "first_key True [\<lparr>data = [3], err = None, waits = 0\<rparr>]
     = Inr \<lparr>Rune = rn CHR ''c'', Mod = ModCtrl, Special = SpecialNone\<rparr>
   \<and> first_key True [\<lparr>data = [0], err = None, waits = 0\<rparr>]
     = Inr \<lparr>Rune = rn CHR '' '', Mod = ModCtrl, Special = SpecialNone\<rparr>
   \<and> first_key True [\<lparr>data = [127], err = None, waits = 0\<rparr>]
     = Inr \<lparr>Rune = 0, Mod = ModNone, Special = SpecialBackspace\<rparr>
   \<and> first_key True [\<lparr>data = [9], err = None, waits = 0\<rparr>]
     = Inr \<lparr>Rune = 0, Mod = ModNone, Special = SpecialTab\<rparr>
   \<and> first_key True [\<lparr>data = [13], err = None, waits = 0\<rparr>]
     = Inr \<lparr>Rune = 0, Mod = ModNone, Special = SpecialEnter\<rparr>
   \<and> first_key True [\<lparr>data = [32], err = None, waits = 0\<rparr>]
     = Inr \<lparr>Rune = 0, Mod = ModNone, Special = SpecialSpace\<rparr>"
  using ReadKey_single_byte [of 3 True "[]" None 0 "[]"]
    ReadKey_single_byte [of 0 True "[]" None 0 "[]"]
    ReadKey_single_byte [of 127 True "[]" None 0 "[]"]
    ReadKey_single_byte [of 9 True "[]" None 0 "[]"]
    ReadKey_single_byte [of 13 True "[]" None 0 "[]"]
    ReadKey_single_byte [of 32 True "[]" None 0 "[]"]
  by (simp add: rn_def)

subsection \<open>A modified arrow key, and ESC alone\<close>






























section \<open>\<open>match\<close> against its specification\<close>

lemma upt_1_Suc: "[Suc 0..<Suc (Suc n)] = Suc 0 # map Suc [Suc 0..<Suc n]"
  by (simp add: upt_conv_Cons map_Suc_upt del: upt_Suc)

lemma walked_Nil: "walked t [] = 0"
  by (simp add: walked_def)

lemma walked_Cons:
  "walked t (k # ks) = (case map_of (children t) k of None \<Rightarrow> 0 | Some c \<Rightarrow> Suc (walked c ks))"
  unfolding walked_def
  by (simp add: upt_1_Suc takeWhile_map comp_def del: upt_Suc split: option.splits)

lemma node_at_Suc:
  "map_of (children t) k = Some c \<Longrightarrow> node_at t (k # ks) (Suc j) = node_at c ks j"
  by (simp add: node_at_def)

lemma bearing_Nil: "bearing t [] = []"
  by (simp add: bearing_def walked_Nil)

lemma bearing_Cons:
  "bearing t (k # ks) =
     (case map_of (children t) k of
        None \<Rightarrow> []
      | Some c \<Rightarrow> (if handler c \<noteq> None then [1] else []) @ map Suc (bearing c ks))"
proof (cases "map_of (children t) k")
  case None
  then show ?thesis by (simp add: bearing_def walked_Cons)
next
  case (Some c)
  have "node_at t (k # ks) (Suc 0) = c" using Some by (simp add: node_at_def)
  moreover have "node_at t (k # ks) (Suc j) = node_at c ks j" for j
    using Some by (rule node_at_Suc)
  ultimately show ?thesis
    using Some
    by (simp add: bearing_def walked_Cons upt_1_Suc filter_map comp_def del: upt_Suc)
qed

lemma match_loop_spec:
  "(lh = None \<longrightarrow> lc = 0) \<Longrightarrow>
   match_loop t lh lc i ks =
     (if bearing t ks = [] then lh else handler (node_at t ks (last (bearing t ks))),
      if bearing t ks = [] then lc else i + last (bearing t ks),
      if walked t ks < length ks then False else children (node_at t ks (length ks)) \<noteq> [])"
proof (induction ks arbitrary: t lh lc i)
  case Nil
  then show ?case by (simp add: bearing_Nil walked_Nil node_at_def)
next
  case (Cons k ks)
  show ?case
  proof (cases "map_of (children t) k")
    case None
    with Cons.prems show ?thesis by (auto simp: bearing_Cons walked_Cons)
  next
    case (Some c)
    have na: "node_at t (k # ks) (Suc j) = node_at c ks j" for j
      using Some by (rule node_at_Suc)
    have n1: "node_at t (k # ks) (Suc 0) = c" using Some by (simp add: node_at_def)
    have nl: "node_at t (k # ks) (length (k # ks)) = node_at c ks (length ks)"
      using na [of "length ks"] by simp
    show ?thesis
    proof (cases "handler c")
      case None
      from Cons.IH [of lh lc c "i + 1"] Cons.prems
      show ?thesis using Some None na nl
        by (simp add: bearing_Cons walked_Cons last_map)
    next
      case (Some h)
      from Cons.IH [of "handler c" "i + 1" c "i + 1"]
      show ?thesis using \<open>map_of (children t) k = Some c\<close> Some na nl n1
        by (simp add: bearing_Cons walked_Cons last_map)
    qed
  qed
qed

text \<open>
  Claim C2. For every trie and every key buffer, \<open>match\<close> returns what the specification
  says: the handler of the deepest handler-bearing node on the walked path and the number
  of keys consumed to reach it, or no handler and 0 when the path has none; a longer
  prefix is reported exactly when the walk got through the whole buffer and the final
  node has a child, and never when a key had no child.
\<close>

theorem match_refines_spec: "match r ks = match_spec (root r) ks"
  using match_loop_spec [of None 0 "root r" 0 ks]
  by (simp add: match_def match_spec_def Let_def)

theorem match_refines_spec_witness:
  "match router_g_gg [key_of CHR ''g'', key_of CHR ''x''] = (Some 1, 1, False)
   \<and> match router_g_gg [key_of CHR ''g''] = (Some 1, 1, True)
   \<and> match router_g_gg [key_of CHR ''x''] = (None, 0, False)"
proof -
  have "match_spec (root router_g_gg) [key_of CHR ''g'', key_of CHR ''x''] = (Some 1, 1, False)"
    "match_spec (root router_g_gg) [key_of CHR ''g''] = (Some 1, 1, True)"
    "match_spec (root router_g_gg) [key_of CHR ''x''] = (None, 0, False)"
    by code_simp+
  then show ?thesis
    using match_refines_spec [of router_g_gg "[key_of CHR ''g'', key_of CHR ''x'']"]
      match_refines_spec [of router_g_gg "[key_of CHR ''g'']"]
      match_refines_spec [of router_g_gg "[key_of CHR ''x'']"]
    by simp
qed


section \<open>Count prefixes\<close>










section \<open>Rendering a key and compiling it back\<close>

lemma mods_bits:
  "(mods c a s AND ModCtrl \<noteq> 0) = c" "(mods c a s AND ModAlt \<noteq> 0) = a"
  "(mods c a s AND ModShift \<noteq> 0) = s" "(mods c a s = ModNone) = (\<not> c \<and> \<not> a \<and> \<not> s)"
  by (cases c; cases a; cases s; simp add: mods_def Mod_defs)+

lemma ParsePattern_bracket:
  assumes "rn CHR ''>'' \<notin> set inner"
  shows "ParsePattern tbl (rn CHR ''<'' # inner @ [rn CHR ''>'']) = [parseVimKey tbl inner]"
proof -
  have "takeWhile (\<lambda>x. x \<noteq> rn CHR ''>'') (inner @ [rn CHR ''>'']) = inner"
    using assms by (induction inner) auto
  moreover have "dropWhile (\<lambda>x. x \<noteq> rn CHR ''>'') (inner @ [rn CHR ''>'']) = [rn CHR ''>'']"
    using assms by (induction inner) auto
  ultimately show ?thesis by (simp add: ParsePattern_def)
qed

lemma Split_no_sep: "c \<notin> set p \<Longrightarrow> Split c p = [p]"
  by (induction p) auto

lemma Split_append_sep: "c \<notin> set p \<Longrightarrow> Split c (p @ c # rest) = p # Split c rest"
  by (induction p) auto

lemma Split_Join:
  "ps \<noteq> [] \<Longrightarrow> \<forall>p \<in> set ps. c \<notin> set p \<Longrightarrow> Split c (Join ps [c]) = ps"
proof (induction ps "[c]" rule: Join.induct)
  case 1
  then show ?case by simp
next
  case (2 p)
  then show ?case by (simp add: Split_no_sep)
next
  case (3 p q ps)
  then show ?case by (simp add: Split_append_sep)
qed

lemma dash: "str ''-'' = [rn CHR ''-'']" "str ''<'' = [rn CHR ''<'']" "str ''>'' = [rn CHR ''>'']"
  by (simp_all add: str_def)

lemma mod_parts_plain: "\<forall>p \<in> set (mod_parts c a s). rn CHR ''-'' \<notin> set p \<and> rn CHR ''>'' \<notin> set p"
  by (auto simp: mod_parts_def str_def rn_def)

lemma parseVimKey_loop_mods:
  "parseVimKey_loop tbl (mod_parts c a s @ [kp]) Key0
     = parseVimKey_part tbl False kp (Key0\<lparr>Mod := mods c a s\<rparr>)"
  by (cases c; cases a; cases s)
     (simp_all add: mod_parts_def parseVimKey_part_def ToLower_def ToLower_rune_def str_def rn_def
        mods_def Key0_def Mod_defs Let_def)

lemma vimToSpecial_single: "vimToSpecial_lookup [x] = None" "vimToSpecial_lookup [] = None"
  by (simp_all add: vimToSpecial_lookup_def vimToSpecial_def str_def)

lemma special_names:
  "\<forall>(sp, nm) \<in> set specialToVim.
      vimToSpecial_lookup (ToLower tbl (str nm)) = Some sp
    \<and> rn CHR ''-'' \<notin> set (str nm) \<and> rn CHR ''>'' \<notin> set (str nm)
    \<and> specialToVim_lookup sp = str nm \<and> sp \<noteq> SpecialNone"
  by (simp add: specialToVim_def specialToVim_lookup_def vimToSpecial_lookup_def vimToSpecial_def
      ToLower_def ToLower_rune_def str_def rn_def Special_defs)


lemma special_name:
  assumes "sp \<in> set (map fst specialToVim)"
  shows "\<exists>nm. vimToSpecial_lookup (ToLower tbl nm) = Some sp
    \<and> rn CHR ''-'' \<notin> set nm \<and> rn CHR ''>'' \<notin> set nm
    \<and> specialToVim_lookup sp = nm \<and> sp \<noteq> SpecialNone"
proof -
  from assms obtain n where "(sp, n) \<in> set specialToVim" by auto
  with special_names [of tbl] show ?thesis by blast
qed

lemma parseVimKey_part_special:
  "vimToSpecial_lookup (ToLower tbl nm) = Some sp \<Longrightarrow>
   parseVimKey_part tbl False nm key = key\<lparr>Special := sp\<rparr>"
  by (simp add: parseVimKey_part_def Let_def)

lemma parseVimKey_part_rune:
  assumes "0 \<le> r" "r < 128"
  shows "parseVimKey_part tbl False (if r \<noteq> 0 then [r] else []) key
         = (if r \<noteq> 0 then key\<lparr>Rune := r\<rparr> else key)"
  using assms
  by (simp add: parseVimKey_part_def Let_def ToLower_def vimToSpecial_single byte_len_def
      utf8_len_def utf8_first_byte_def)

lemma String_bracket:
  assumes "Special k \<noteq> SpecialNone \<or> Mod k \<noteq> ModNone" "Mod k = mods c a s"
  shows "String k = rn CHR ''<'' #
     Join (mod_parts c a s @ [if Special k \<noteq> SpecialNone then specialToVim_lookup (Special k)
                              else if Rune k \<noteq> 0 then string_of_rune (Rune k) else []])
       [rn CHR ''-''] @ [rn CHR ''>'']"
proof -
  have "mod_parts c a s \<noteq> [] \<or> Special k \<noteq> SpecialNone"
    using assms by (auto simp: mod_parts_def mods_bits)
  then show ?thesis
    using assms by (auto simp: String_def Let_def mods_bits mod_parts_def dash)
qed

lemma Join_plain:
  "\<forall>p \<in> set ps. x \<notin> set p \<Longrightarrow> x \<notin> set sep \<Longrightarrow> x \<notin> set (Join ps sep)"
  by (induction ps sep rule: Join.induct) auto

lemma roundtrip_bracket:
  assumes k: "Special k \<noteq> SpecialNone \<or> Mod k \<noteq> ModNone" "Mod k = mods c a s"
    and kp: "kp = (if Special k \<noteq> SpecialNone then specialToVim_lookup (Special k)
                  else if Rune k \<noteq> 0 then string_of_rune (Rune k) else [])"
      "rn CHR ''-'' \<notin> set kp" "rn CHR ''>'' \<notin> set kp"
  shows "ParsePattern tbl (String k)
         = [parseVimKey_part tbl False kp (Key0\<lparr>Mod := mods c a s\<rparr>)]"
proof -
  let ?ps = "mod_parts c a s @ [kp]"
  have s: "String k = rn CHR ''<'' # Join ?ps [rn CHR ''-''] @ [rn CHR ''>'']"
    using String_bracket [OF k] kp(1) by simp
  have pl: "\<forall>p \<in> set ?ps. rn CHR ''-'' \<notin> set p" "\<forall>p \<in> set ?ps. rn CHR ''>'' \<notin> set p"
    using mod_parts_plain [of c a s] kp(2,3) by auto
  have "rn CHR ''>'' \<notin> set (Join ?ps [rn CHR ''-''])"
    using pl(2) by (intro Join_plain) (auto simp: rn_def)
  then have "ParsePattern tbl (String k) = [parseVimKey tbl (Join ?ps [rn CHR ''-''])]"
    unfolding s by (rule ParsePattern_bracket)
  moreover have "Split (rn CHR ''-'') (Join ?ps [rn CHR ''-'']) = ?ps"
    using pl(1) by (intro Split_Join) auto
  ultimately show ?thesis
    by (simp add: parseVimKey_def parseVimKey_loop_mods)
qed

text \<open>
  Claim C3, as amended. Let \<open>k\<close> be a key whose modifiers are any combination of Ctrl, Alt
  and Shift and which is one of: a named special key with no rune; an unmodified key of a
  valid code point other than 0; a modified key with no special whose rune is 0 or an
  ASCII character other than the hyphen and the closing bracket. Then \<open>ParsePattern\<close> of
  \<open>k.String()\<close> is the sequence of exactly the one key \<open>k\<close>.
\<close>

theorem String_ParsePattern_roundtrip:
  assumes "k = \<lparr>Rune = r, Mod = mods c a s, Special = sp\<rparr>"
    and "(sp \<in> set (map fst specialToVim) \<and> r = 0)
       \<or> (sp = SpecialNone \<and> \<not> c \<and> \<not> a \<and> \<not> s \<and> valid_rune r \<and> r \<noteq> 0)
       \<or> (sp = SpecialNone \<and> (c \<or> a \<or> s) \<and> 0 \<le> r \<and> r < 128
            \<and> r \<noteq> rn CHR ''-'' \<and> r \<noteq> rn CHR ''>'')"
  shows "ParsePattern tbl (String k) = [k]"
proof -
  consider (special) "sp \<in> set (map fst specialToVim)" "r = 0"
    | (plain) "sp = SpecialNone" "\<not> c" "\<not> a" "\<not> s" "valid_rune r" "r \<noteq> 0"
    | (chord) "sp = SpecialNone" "c \<or> a \<or> s" "0 \<le> r" "r < 128"
        "r \<noteq> rn CHR ''-''" "r \<noteq> rn CHR ''>''"
    using assms(2) by blast
  then show ?thesis
  proof cases
    case special
    from special_name [OF special(1), of tbl] obtain nm where
      nm: "vimToSpecial_lookup (ToLower tbl nm) = Some sp" "rn CHR ''-'' \<notin> set nm"
        "rn CHR ''>'' \<notin> set nm" "specialToVim_lookup sp = nm" "sp \<noteq> SpecialNone"
      by blast
    have "ParsePattern tbl (String k)
         = [parseVimKey_part tbl False nm (Key0\<lparr>Mod := mods c a s\<rparr>)]"
      using nm assms(1) by (intro roundtrip_bracket) auto
    then show ?thesis
      using nm(1) special(2) assms(1) by (simp add: parseVimKey_part_special Key0_def)
  next
    case plain
    have "String k = [r]"
      using plain assms(1) by (simp add: String_def mods_bits string_of_rune_def)
    moreover have "ParsePattern tbl [r] = [Key0\<lparr>Rune := r\<rparr>]"
      by (simp add: ParsePattern_def)
    ultimately show ?thesis
      using plain assms(1) by (simp add: Key0_def mods_def)
  next
    case chord
    let ?kp = "if r \<noteq> 0 then [r] else []"
    have v: "r \<noteq> 0 \<Longrightarrow> string_of_rune r = [r]"
      using chord(3,4) by (simp add: string_of_rune_def valid_rune_def)
    have m: "Mod k \<noteq> ModNone" using chord(2) assms(1) by (simp add: mods_bits)
    have "ParsePattern tbl (String k)
         = [parseVimKey_part tbl False ?kp (Key0\<lparr>Mod := mods c a s\<rparr>)]"
      using chord m v assms(1) by (intro roundtrip_bracket) auto
    then show ?thesis
      using chord assms(1) by (simp add: parseVimKey_part_rune Key0_def)
  qed
qed

text \<open>
  Claim C3 as stated fails for Alt with the hyphen, a key the decoder itself produces from
  the bytes ESC and hyphen: it is rendered with two hyphens in a row, which the compiler
  splits into empty parts, and the rune is lost. It fails as well for the zero key (rendered
  as the empty string, compiled to no key), for a modified closing bracket (two keys), for a
  modified rune beyond ASCII (the first byte of its UTF-8 encoding comes back) and for a
  key with both a rune and a special (the rune is not rendered).
\<close>

theorem String_ParsePattern_counterexample:
  "String \<lparr>Rune = rn CHR ''-'', Mod = ModAlt, Special = SpecialNone\<rparr> = str ''<A-->''
   \<and> ParsePattern id (String \<lparr>Rune = rn CHR ''-'', Mod = ModAlt, Special = SpecialNone\<rparr>)
       = [\<lparr>Rune = 0, Mod = ModAlt, Special = SpecialNone\<rparr>]
   \<and> ParsePattern id (String \<lparr>Rune = rn CHR ''-'', Mod = ModAlt, Special = SpecialNone\<rparr>)
       \<noteq> [\<lparr>Rune = rn CHR ''-'', Mod = ModAlt, Special = SpecialNone\<rparr>]
   \<and> first_key True [\<lparr>data = [27, bt CHR ''-''], err = None, waits = 0\<rparr>]
       = Inr \<lparr>Rune = rn CHR ''-'', Mod = ModAlt, Special = SpecialNone\<rparr>
   \<and> String Key0 = [] \<and> ParsePattern id (String Key0) = []
   \<and> ParsePattern id (String \<lparr>Rune = rn CHR ''>'', Mod = ModCtrl, Special = SpecialNone\<rparr>)
       = [\<lparr>Rune = 0, Mod = ModCtrl, Special = SpecialNone\<rparr>,
          \<lparr>Rune = rn CHR ''>'', Mod = ModNone, Special = SpecialNone\<rparr>]
   \<and> ParsePattern id (String \<lparr>Rune = 233, Mod = ModCtrl, Special = SpecialNone\<rparr>)
       = [\<lparr>Rune = 195, Mod = ModCtrl, Special = SpecialNone\<rparr>]
   \<and> ParsePattern id (String \<lparr>Rune = rn CHR ''x'', Mod = ModNone, Special = SpecialUp\<rparr>)
       = [\<lparr>Rune = 0, Mod = ModNone, Special = SpecialUp\<rparr>]"
  by code_simp

theorem String_ParsePattern_roundtrip_witness:
  "SpecialPageDown \<in> set (map fst specialToVim)
   \<and> ParsePattern id (String \<lparr>Rune = 0, Mod = mods True True False, Special = SpecialPageDown\<rparr>)
       = [\<lparr>Rune = 0, Mod = mods True True False, Special = SpecialPageDown\<rparr>]
   \<and> valid_rune (rn CHR ''j'')
   \<and> ParsePattern id (String \<lparr>Rune = rn CHR ''j'', Mod = mods False False False, Special = SpecialNone\<rparr>)
       = [\<lparr>Rune = rn CHR ''j'', Mod = mods False False False, Special = SpecialNone\<rparr>]
   \<and> ParsePattern id (String \<lparr>Rune = rn CHR ''w'', Mod = mods True False False, Special = SpecialNone\<rparr>)
       = [\<lparr>Rune = rn CHR ''w'', Mod = mods True False False, Special = SpecialNone\<rparr>]"
proof -
  have a: "SpecialPageDown \<in> set (map fst specialToVim)" "valid_rune (rn CHR ''j'')"
    "rn CHR ''j'' \<noteq> 0"
    "0 \<le> rn CHR ''w'' \<and> rn CHR ''w'' < 128 \<and> rn CHR ''w'' \<noteq> rn CHR ''-''
       \<and> rn CHR ''w'' \<noteq> rn CHR ''>''"
    by code_simp+
  from a
    String_ParsePattern_roundtrip [OF refl, of SpecialPageDown 0 True True False id]
    String_ParsePattern_roundtrip [OF refl, of SpecialNone "rn CHR ''j''" False False False id]
    String_ParsePattern_roundtrip [OF refl, of SpecialNone "rn CHR ''w''" True False False id]
  show ?thesis by simp
qed


section \<open>The escape-requirement flag\<close>

lemma registerPattern_flag:
  "hasEscapeSequences (registerPattern tbl p h r)
     = (hasEscapeSequences r \<or> escape_seq (compile tbl r p))"
proof (cases "compile tbl r p = []")
  case True
  then have "registerPattern tbl p h r = r" by (simp add: registerPattern_def compile_def)
  with True show ?thesis by (simp add: escape_seq_def)
next
  case False
  then have "hasEscapeSequences (registerPattern tbl p h r)
      = (if list_ex generatesEscapeSequence (compile tbl r p) then True else hasEscapeSequences r)"
    by (simp add: registerPattern_def compile_def Let_def)
  then show ?thesis by (auto simp: escape_seq_def list_ex_iff)
qed

lemma registerPattern_aliases: "aliases (registerPattern tbl p h r) = aliases r"
  by (simp add: registerPattern_def Let_def)

lemma removePattern_flag: "hasEscapeSequences (removePattern tbl p r) = hasEscapeSequences r"
  "aliases (removePattern tbl p r) = aliases r"
  by (simp_all add: removePattern_def Let_def)

lemma compile_cong: "aliases r' = aliases r \<Longrightarrow> compile tbl r' p = compile tbl r p"
  by (simp add: compile_def expandAliases_def)

lemma Rebind_flag:
  "hasEscapeSequences (fst (Rebind tbl nm p r))
     = (hasEscapeSequences r \<or> (\<exists>ks \<in> set (compiled_by tbl (OpRebind nm p) r). escape_seq ks))"
proof (cases "namedBindings r nm")
  case None
  then show ?thesis by (simp add: Rebind_def)
next
  case (Some b)
  define r2 where "r2 = (removePattern tbl (currentPattern b) r)
     \<lparr>namedBindings := (namedBindings (removePattern tbl (currentPattern b) r))
         (nm \<mapsto> b\<lparr>currentPattern := p\<rparr>)\<rparr>"
  have f: "hasEscapeSequences r2 = hasEscapeSequences r" "aliases r2 = aliases r"
    by (simp_all add: r2_def removePattern_flag)
  have "fst (Rebind tbl nm p r) = registerPattern tbl p (handler_nb b) r2"
    using Some by (simp add: Rebind_def Let_def r2_def)
  then show ?thesis
    using Some f by (simp add: registerPattern_flag compile_cong [OF f(2)])
qed

lemma Reset_flag:
  "hasEscapeSequences (fst (Reset tbl nm r))
     = (hasEscapeSequences r \<or> (\<exists>ks \<in> set (compiled_by tbl (OpReset nm) r). escape_seq ks))"
proof (cases "namedBindings r nm")
  case None
  then show ?thesis by (simp add: Reset_def)
next
  case (Some b)
  show ?thesis
  proof (cases "currentPattern b = defaultPattern b")
    case True
    with Some show ?thesis by (simp add: Reset_def)
  next
    case False
    with Some have "fst (Reset tbl nm r) = fst (Rebind tbl nm (defaultPattern b) r)"
      by (simp add: Reset_def)
    with Some False show ?thesis by (simp add: Rebind_flag)
  qed
qed

lemma HandleNamed_flag:
  "hasEscapeSequences (HandleNamed tbl nm p h r)
     = (hasEscapeSequences r \<or> escape_seq (compile tbl r p))"
proof -
  define r1 where "r1 = r\<lparr>namedBindings := (namedBindings r)(nm \<mapsto>
             \<lparr>defaultPattern = p, currentPattern = p, handler_nb = h\<rparr>),
         bindingOrder := bindingOrder r @ [nm]\<rparr>"
  have f: "hasEscapeSequences r1 = hasEscapeSequences r" "aliases r1 = aliases r"
    by (simp_all add: r1_def)
  have "HandleNamed tbl nm p h r = registerPattern tbl p h r1"
    by (simp add: HandleNamed_def r1_def)
  then show ?thesis using f by (simp add: registerPattern_flag compile_cong [OF f(2)])
qed

lemma apply_op_flag:
  "hasEscapeSequences (apply_op tbl x r)
     = (hasEscapeSequences r \<or> (\<exists>ks \<in> set (compiled_by tbl x r). escape_seq ks))"
proof (cases x)
  case (OpHandle p h)
  then show ?thesis by (simp add: Handle_def registerPattern_flag)
next
  case (OpHandleNamed nm p h)
  then show ?thesis by (simp add: HandleNamed_flag)
next
  case (OpRebind nm p)
  then show ?thesis using Rebind_flag [of tbl nm p r] by simp
next
  case (OpReset nm)
  then show ?thesis using Reset_flag [of tbl nm r] by simp
next
  case (OpRemove p)
  then show ?thesis by (simp add: removePattern_flag)
next
  case (OpSetAlias nm e)
  then show ?thesis by (simp add: SetAlias_def Let_def)
qed

lemma run_ops_flag:
  "hasEscapeSequences (run_ops tbl xs r)
     = (hasEscapeSequences r \<or> (\<exists>ks \<in> set (history tbl xs r). escape_seq ks))"
proof (induction xs arbitrary: r)
  case Nil
  then show ?case by simp
next
  case (Cons x xs)
  have "hasEscapeSequences (run_ops tbl (x # xs) r)
      = (hasEscapeSequences (apply_op tbl x r)
          \<or> (\<exists>ks \<in> set (history tbl xs (apply_op tbl x r)). escape_seq ks))"
    using Cons.IH [of "apply_op tbl x r"] by simp
  also have "\<dots> = ((hasEscapeSequences r \<or> (\<exists>ks \<in> set (compiled_by tbl x r). escape_seq ks))
          \<or> (\<exists>ks \<in> set (history tbl xs (apply_op tbl x r)). escape_seq ks))"
    by (simp only: apply_op_flag)
  also have "\<dots> = (hasEscapeSequences r \<or> (\<exists>ks \<in> set (history tbl (x # xs) r). escape_seq ks))"
    by (simp only: history.simps set_append bex_Un disj_assoc)
  finally show ?case .
qed


lemma walk_leaf: "walk (Node [] None) ks \<noteq> None \<Longrightarrow> ks = []"
  by (cases ks) auto

lemma walk_registerPattern_loop:
  "walk (registerPattern_loop keys h t) ks \<noteq> None \<Longrightarrow>
   walk t ks \<noteq> None \<or> (\<exists>zs. keys = ks @ zs)"
proof (induction keys arbitrary: t ks)
  case Nil
  then show ?case by (cases t; cases ks) auto
next
  case (Cons k keys)
  obtain cs old where t: "t = Node cs old" by (cases t)
  show ?case
  proof (cases ks)
    case Nil
    then show ?thesis by simp
  next
    case (Cons k' ks')
    show ?thesis
    proof (cases "k' = k")
      case False
      with Cons.prems t Cons show ?thesis
        by (auto simp: Let_def update_conv' split: option.splits)
    next
      case True
      define child where "child = (case map_of cs k of Some c \<Rightarrow> c | None \<Rightarrow> Node [] None)"
      from Cons.prems t Cons True
      have "walk (registerPattern_loop keys h child) ks' \<noteq> None"
        by (auto simp: Let_def update_conv' child_def split: option.splits)
      from Cons.IH [OF this] have d: "walk child ks' \<noteq> None \<or> (\<exists>zs. keys = ks' @ zs)" .
      show ?thesis
      proof (cases "map_of cs k")
        case None
        then have "child = Node [] None" by (simp add: child_def)
        with d have "ks' = [] \<or> (\<exists>zs. keys = ks' @ zs)" using walk_leaf by auto
        then show ?thesis using Cons True by auto
      next
        case (Some c)
        then have "child = c" by (simp add: child_def)
        with d Some t Cons True show ?thesis by auto
      qed
    qed
  qed
qed

lemma walk_removePattern_loop:
  "walk (removePattern_loop keys t) ks \<noteq> None \<Longrightarrow> walk t ks \<noteq> None"
proof (induction keys arbitrary: t ks)
  case Nil
  then show ?case by (cases t; cases ks) auto
next
  case (Cons k keys)
  obtain cs old where t: "t = Node cs old" by (cases t)
  show ?case
  proof (cases ks)
    case Nil
    then show ?thesis by simp
  next
    case (Cons k' ks')
    show ?thesis
    proof (cases "map_of cs k")
      case None
      with Cons.prems t show ?thesis by simp
    next
      case (Some c)
      show ?thesis
      proof (cases "k' = k")
        case False
        with Cons.prems t Cons Some show ?thesis
          by (auto simp: update_conv' split: option.splits)
      next
        case True
        with Cons.prems t Cons Some
        have "walk (removePattern_loop keys c) ks' \<noteq> None"
          by (auto simp: update_conv' split: option.splits)
        from Cons.IH [OF this] Some t Cons True show ?thesis by simp
      qed
    qed
  qed
qed

lemma escape_seq_prefix: "escape_seq ks \<Longrightarrow> escape_seq (ks @ zs)"
  by (auto simp: escape_seq_def)

lemma registerPattern_root:
  "root (registerPattern tbl p h r)
     = (if compile tbl r p = [] then root r else registerPattern_loop (compile tbl r p) h (root r))"
  by (simp add: registerPattern_def compile_def Let_def)

lemma removePattern_root:
  "root (removePattern tbl p r)
     = (if compile tbl r p = [] then root r else removePattern_loop (compile tbl r p) (root r))"
  by (simp add: removePattern_def compile_def Let_def)

lemma paths_flagged_cong:
  "root r' = root r \<Longrightarrow> hasEscapeSequences r' = hasEscapeSequences r \<Longrightarrow>
   paths_flagged r' = paths_flagged r"
  by (simp add: paths_flagged_def)

lemma registerPattern_paths:
  assumes "paths_flagged r"
  shows "paths_flagged (registerPattern tbl p h r)"
  unfolding paths_flagged_def
proof (intro allI impI)
  fix ks
  assume a: "walk (root (registerPattern tbl p h r)) ks \<noteq> None \<and> escape_seq ks"
  show "hasEscapeSequences (registerPattern tbl p h r)"
  proof (cases "compile tbl r p = []")
    case True
    with a assms show ?thesis
      by (auto simp: registerPattern_root registerPattern_flag paths_flagged_def)
  next
    case False
    with a have "walk (registerPattern_loop (compile tbl r p) h (root r)) ks \<noteq> None"
      by (simp add: registerPattern_root)
    from walk_registerPattern_loop [OF this]
    show ?thesis
    proof
      assume "walk (root r) ks \<noteq> None"
      with a assms show ?thesis by (auto simp: registerPattern_flag paths_flagged_def)
    next
      assume "\<exists>zs. compile tbl r p = ks @ zs"
      with a have "escape_seq (compile tbl r p)" by (auto simp: escape_seq_prefix)
      then show ?thesis by (simp add: registerPattern_flag)
    qed
  qed
qed

lemma removePattern_paths:
  assumes "paths_flagged r"
  shows "paths_flagged (removePattern tbl p r)"
  unfolding paths_flagged_def
proof (intro allI impI)
  fix ks
  assume a: "walk (root (removePattern tbl p r)) ks \<noteq> None \<and> escape_seq ks"
  then have "walk (root r) ks \<noteq> None"
    using walk_removePattern_loop [of "compile tbl r p" "root r" ks]
    by (auto simp: removePattern_root split: if_splits)
  with a assms show "hasEscapeSequences (removePattern tbl p r)"
    by (auto simp: removePattern_flag paths_flagged_def)
qed

lemma Rebind_paths:
  assumes "paths_flagged r"
  shows "paths_flagged (fst (Rebind tbl nm p r))"
proof (cases "namedBindings r nm")
  case None
  with assms show ?thesis by (simp add: Rebind_def)
next
  case (Some b)
  define r1 where "r1 = removePattern tbl (currentPattern b) r"
  define r2 where "r2 = r1\<lparr>namedBindings := (namedBindings r1)(nm \<mapsto> b\<lparr>currentPattern := p\<rparr>)\<rparr>"
  have "paths_flagged r1" unfolding r1_def using assms by (rule removePattern_paths)
  moreover have "paths_flagged r2 = paths_flagged r1"
    by (rule paths_flagged_cong) (simp_all add: r2_def)
  ultimately have "paths_flagged (registerPattern tbl p (handler_nb b) r2)"
    by (intro registerPattern_paths) simp
  moreover have "fst (Rebind tbl nm p r) = registerPattern tbl p (handler_nb b) r2"
    using Some by (simp add: Rebind_def Let_def r2_def r1_def)
  ultimately show ?thesis by simp
qed

lemma apply_op_paths:
  assumes "paths_flagged r"
  shows "paths_flagged (apply_op tbl x r)"
proof (cases x)
  case (OpHandle p h)
  with assms show ?thesis by (simp add: Handle_def registerPattern_paths)
next
  case (OpHandleNamed nm p h)
  define r1 where "r1 = r\<lparr>namedBindings := (namedBindings r)(nm \<mapsto>
             \<lparr>defaultPattern = p, currentPattern = p, handler_nb = h\<rparr>),
         bindingOrder := bindingOrder r @ [nm]\<rparr>"
  have "paths_flagged r1 = paths_flagged r"
    by (rule paths_flagged_cong) (simp_all add: r1_def)
  with assms have "paths_flagged (registerPattern tbl p h r1)"
    by (intro registerPattern_paths) simp
  then show ?thesis using OpHandleNamed by (simp add: HandleNamed_def r1_def)
next
  case (OpRebind nm p)
  with assms show ?thesis by (simp add: Rebind_paths)
next
  case (OpReset nm)
  show ?thesis
  proof (cases "namedBindings r nm")
    case None
    with assms OpReset show ?thesis by (simp add: Reset_def)
  next
    case (Some b)
    with assms OpReset Rebind_paths [OF assms, of tbl nm "defaultPattern b"]
    show ?thesis by (simp add: Reset_def)
  qed
next
  case (OpRemove p)
  with assms show ?thesis by (simp add: removePattern_paths)
next
  case (OpSetAlias nm e)
  have "paths_flagged (SetAlias tbl nm e r) = paths_flagged r"
    by (rule paths_flagged_cong) (simp_all add: SetAlias_def Let_def)
  with assms OpSetAlias show ?thesis by simp
qed

lemma run_ops_paths: "paths_flagged r \<Longrightarrow> paths_flagged (run_ops tbl xs r)"
  by (induction xs arbitrary: r) (simp_all add: apply_op_paths)

lemma NewRouter_paths: "paths_flagged NewRouter"
proof -
  have "\<not> escape_seq ks" if "walk (root NewRouter) ks \<noteq> None" for ks
  proof -
    from that have "ks = []" using walk_leaf [of ks] by (simp add: NewRouter_def)
    then show ?thesis by (simp add: escape_seq_def)
  qed
  then show ?thesis by (auto simp: paths_flagged_def)
qed

text \<open>
  Claim C4, as amended. After any sequence of registrations, removals, rebinds, resets and
  alias definitions on a new router, \<open>HasEscapeSequences\<close> is true if and only if some key
  sequence registered in the course of the operations, removed or rebound since or not,
  holds a key that is read as a multi-byte escape sequence (an arrow, Home, End, PageUp,
  PageDown, Insert, Delete, F1 to F12, or any key with Alt). In particular it is true
  whenever the trie holds a handler for such a sequence now.
\<close>

theorem HasEscapeSequences_history:
  "HasEscapeSequences (run_ops tbl xs NewRouter)
     = (\<exists>ks \<in> set (history tbl xs NewRouter). escape_seq ks)
   \<and> (\<forall>ks. registered (run_ops tbl xs NewRouter) ks \<noteq> None \<and> escape_seq ks
          \<longrightarrow> HasEscapeSequences (run_ops tbl xs NewRouter))"
proof
  show "HasEscapeSequences (run_ops tbl xs NewRouter)
     = (\<exists>ks \<in> set (history tbl xs NewRouter). escape_seq ks)"
    using run_ops_flag [of tbl xs NewRouter] by (simp add: HasEscapeSequences_def NewRouter_def)
next
  have "paths_flagged (run_ops tbl xs NewRouter)"
    using NewRouter_paths by (rule run_ops_paths)
  then show "\<forall>ks. registered (run_ops tbl xs NewRouter) ks \<noteq> None \<and> escape_seq ks
          \<longrightarrow> HasEscapeSequences (run_ops tbl xs NewRouter)"
    by (auto simp: paths_flagged_def registered_def HasEscapeSequences_def split: option.splits)
qed

text \<open>
  Claim C4 as stated fails after a rebind: once the binding of the Up key is rebound to
  \<open>j\<close>, the only handler left in the trie is the one of \<open>j\<close>, which needs no escape
  sequence, and \<open>HasEscapeSequences\<close> is still true.
\<close>

theorem HasEscapeSequences_rebind_counterexample:
  "HasEscapeSequences (run_ops id ops_rebound NewRouter)
   \<and> root (run_ops id ops_rebound NewRouter)
       = Node [(Key0\<lparr>Special := SpecialUp\<rparr>, Node [] None), (key_of CHR ''j'', Node [] (Some 1))] None
   \<and> \<not> generatesEscapeSequence (key_of CHR ''j'')"
  by code_simp

theorem HasEscapeSequences_history_witness:
  "[Key0\<lparr>Special := SpecialUp\<rparr>] \<in> set (history id ops_rebound NewRouter)
   \<and> escape_seq [Key0\<lparr>Special := SpecialUp\<rparr>]
   \<and> HasEscapeSequences (run_ops id ops_rebound NewRouter)
   \<and> registered (run_ops id [OpHandle (str ''<A-x>'') (Some 3)] NewRouter)
        [\<lparr>Rune = rn CHR ''x'', Mod = ModAlt, Special = SpecialNone\<rparr>] \<noteq> None
   \<and> escape_seq [\<lparr>Rune = rn CHR ''x'', Mod = ModAlt, Special = SpecialNone\<rparr>]
   \<and> HasEscapeSequences (run_ops id [OpHandle (str ''<A-x>'') (Some 3)] NewRouter)"
proof -
  have a: "[Key0\<lparr>Special := SpecialUp\<rparr>] \<in> set (history id ops_rebound NewRouter)"
    "escape_seq [Key0\<lparr>Special := SpecialUp\<rparr>]"
    "registered (run_ops id [OpHandle (str ''<A-x>'') (Some 3)] NewRouter)
        [\<lparr>Rune = rn CHR ''x'', Mod = ModAlt, Special = SpecialNone\<rparr>] \<noteq> None"
    "escape_seq [\<lparr>Rune = rn CHR ''x'', Mod = ModAlt, Special = SpecialNone\<rparr>]"
    by code_simp+
  from a HasEscapeSequences_history [of id ops_rebound]
    HasEscapeSequences_history [of id "[OpHandle (str ''<A-x>'') (Some 3)]"]
  show ?thesis by blast
qed

section \<open>What the trie holds after registrations and removals\<close>

text \<open>
  Registering a pattern sets the handler of its key sequence and of no other, and makes
  every strict prefix of the sequence extendable; removing one clears that handler and
  leaves every node in place. So a sequence is extendable on a router exactly when a
  sequence that strictly extends it was registered at some time.
\<close>

lemma handler_at_leaf: "handler_at (Node [] None) ks = None"
  by (cases ks) (simp_all add: handler_at_def)

lemma has_children_at_leaf: "\<not> has_children_at (Node [] None) ks"
  by (cases ks) (simp_all add: has_children_at_def)

lemma handler_at_Cons:
  "handler_at t (k # ks) = (case map_of (children t) k of None \<Rightarrow> None | Some c \<Rightarrow> handler_at c ks)"
  by (simp add: handler_at_def split: option.splits)

lemma has_children_at_Cons:
  "has_children_at t (k # ks)
     = (case map_of (children t) k of None \<Rightarrow> False | Some c \<Rightarrow> has_children_at c ks)"
  by (simp add: has_children_at_def split: option.splits)

lemma update_nonempty: "AList.update k v cs \<noteq> []"
  by (cases cs) (auto)

lemma handler_at_register:
  "handler_at (registerPattern_loop keys h t) xs = (if xs = keys then h else handler_at t xs)"
proof (induction keys arbitrary: t xs)
  case Nil
  then show ?case by (cases t; cases xs) (simp_all add: handler_at_def)
next
  case (Cons k keys)
  obtain cs old where t: "t = Node cs old" by (cases t)
  show ?case
  proof (cases xs)
    case Nil
    then show ?thesis using t by (simp add: handler_at_def Let_def)
  next
    case (Cons k' xs')
    show ?thesis
    proof (cases "k' = k")
      case False
      then show ?thesis using t Cons by (simp add: handler_at_Cons Let_def update_conv')
    next
      case True
      show ?thesis
      proof (cases "map_of cs k")
        case None
        then show ?thesis
          using t Cons True Cons.IH [of "Node [] None" xs']
          by (simp add: handler_at_Cons Let_def update_conv' handler_at_leaf)
      next
        case (Some c)
        then show ?thesis
          using t Cons True Cons.IH [of c xs']
          by (simp add: handler_at_Cons Let_def update_conv')
      qed
    qed
  qed
qed

lemma handler_at_remove:
  "handler_at (removePattern_loop keys t) xs = (if xs = keys then None else handler_at t xs)"
proof (induction keys arbitrary: t xs)
  case Nil
  then show ?case by (cases t; cases xs) (simp_all add: handler_at_def)
next
  case (Cons k keys)
  obtain cs old where t: "t = Node cs old" by (cases t)
  show ?case
  proof (cases "map_of cs k")
    case None
    then show ?thesis using t by (cases xs) (auto simp: handler_at_Cons handler_at_def)
  next
    case (Some c)
    show ?thesis
    proof (cases xs)
      case Nil
      then show ?thesis using t Some by (simp add: handler_at_def)
    next
      case (Cons k' xs')
      then show ?thesis
        using t Some Cons.IH [of c xs']
        by (cases "k' = k") (simp_all add: handler_at_Cons update_conv')
    qed
  qed
qed

lemma has_children_at_register:
  "has_children_at (registerPattern_loop keys h t) xs
     = (has_children_at t xs \<or> (\<exists>k zs. keys = xs @ k # zs))"
proof (induction keys arbitrary: t xs)
  case Nil
  then show ?case by (cases t; cases xs) (simp_all add: has_children_at_def)
next
  case (Cons k keys)
  obtain cs old where t: "t = Node cs old" by (cases t)
  show ?case
  proof (cases xs)
    case Nil
    then show ?thesis using t by (simp add: has_children_at_def Let_def update_nonempty)
  next
    case (Cons k' xs')
    show ?thesis
    proof (cases "k' = k")
      case False
      then show ?thesis using t Cons by (simp add: has_children_at_Cons Let_def update_conv')
    next
      case True
      show ?thesis
      proof (cases "map_of cs k")
        case None
        then show ?thesis
          using t Cons True Cons.IH [of "Node [] None" xs']
          by (simp add: has_children_at_Cons Let_def update_conv' has_children_at_leaf)
      next
        case (Some c)
        then show ?thesis
          using t Cons True Cons.IH [of c xs']
          by (simp add: has_children_at_Cons Let_def update_conv')
      qed
    qed
  qed
qed

lemma has_children_at_remove:
  "has_children_at (removePattern_loop keys t) xs = has_children_at t xs"
proof (induction keys arbitrary: t xs)
  case Nil
  then show ?case by (cases t; cases xs) (simp_all add: has_children_at_def)
next
  case (Cons k keys)
  obtain cs old where t: "t = Node cs old" by (cases t)
  show ?case
  proof (cases "map_of cs k")
    case None
    then show ?thesis using t by simp
  next
    case (Some c)
    have ne: "cs \<noteq> []" using Some by auto
    show ?thesis
    proof (cases xs)
      case Nil
      then show ?thesis using t Some ne by (simp add: has_children_at_def update_nonempty)
    next
      case (Cons k' xs')
      then show ?thesis
        using t Some Cons.IH [of c xs']
        by (cases "k' = k") (simp_all add: has_children_at_Cons update_conv')
    qed
  qed
qed

lemma registered_registerPattern:
  "registered (registerPattern tbl p h r) ks
     = (if ks = compile tbl r p \<and> ks \<noteq> [] then h else registered r ks)"
proof -
  have r: "registered r' xs = handler_at (root r') xs" for r' xs
    by (simp add: registered_def handler_at_def)
  show ?thesis
    by (auto simp: r registerPattern_root handler_at_register)
qed

lemma registered_removePattern:
  "registered (removePattern tbl p r) ks
     = (if ks = compile tbl r p \<and> ks \<noteq> [] then None else registered r ks)"
proof -
  have r: "registered r' xs = handler_at (root r') xs" for r' xs
    by (simp add: registered_def handler_at_def)
  show ?thesis
    by (auto simp: r removePattern_root handler_at_remove)
qed

lemma extendable_registerPattern:
  "extendable (registerPattern tbl p h r) ks
     = (extendable r ks \<or> (\<exists>k zs. compile tbl r p = ks @ k # zs))"
proof -
  have r: "extendable r' xs = has_children_at (root r') xs" for r' xs
    by (simp add: extendable_def has_children_at_def)
  show ?thesis
    by (auto simp: r registerPattern_root has_children_at_register)
qed

lemma extendable_removePattern:
  "extendable (removePattern tbl p r) ks = extendable r ks"
proof -
  have r: "extendable r' xs = has_children_at (root r') xs" for r' xs
    by (simp add: extendable_def has_children_at_def)
  show ?thesis
    by (auto simp: r removePattern_root has_children_at_remove)
qed


lemma extendable_cong: "root r' = root r \<Longrightarrow> extendable r' ks = extendable r ks"
  by (simp add: extendable_def)

lemma extendable_Rebind:
  "extendable (fst (Rebind tbl nm p r)) ks
     = (extendable r ks \<or> (\<exists>ks' \<in> set (compiled_by tbl (OpRebind nm p) r). extends ks' ks))"
proof (cases "namedBindings r nm")
  case None
  then show ?thesis by (simp add: Rebind_def)
next
  case (Some b)
  define r1 where "r1 = removePattern tbl (currentPattern b) r"
  define r2 where "r2 = r1\<lparr>namedBindings := (namedBindings r1)(nm \<mapsto> b\<lparr>currentPattern := p\<rparr>)\<rparr>"
  have a: "aliases r2 = aliases r" by (simp add: r2_def r1_def removePattern_flag)
  have "extendable r2 ks = extendable r1 ks" by (rule extendable_cong) (simp add: r2_def)
  then have e: "extendable r2 ks = extendable r ks" by (simp add: r1_def extendable_removePattern)
  have "fst (Rebind tbl nm p r) = registerPattern tbl p (handler_nb b) r2"
    using Some by (simp add: Rebind_def Let_def r2_def r1_def)
  then show ?thesis
    using Some e by (simp add: extendable_registerPattern compile_cong [OF a] extends_def)
qed

lemma extendable_apply_op:
  "extendable (apply_op tbl x r) ks
     = (extendable r ks \<or> (\<exists>ks' \<in> set (compiled_by tbl x r). extends ks' ks))"
proof (cases x)
  case (OpHandle p h)
  then show ?thesis by (simp add: Handle_def extendable_registerPattern extends_def)
next
  case (OpHandleNamed nm p h)
  define r1 where "r1 = r\<lparr>namedBindings := (namedBindings r)(nm \<mapsto>
             \<lparr>defaultPattern = p, currentPattern = p, handler_nb = h\<rparr>),
         bindingOrder := bindingOrder r @ [nm]\<rparr>"
  have a: "aliases r1 = aliases r" by (simp add: r1_def)
  have e: "extendable r1 ks = extendable r ks" by (rule extendable_cong) (simp add: r1_def)
  have "HandleNamed tbl nm p h r = registerPattern tbl p h r1"
    by (simp add: HandleNamed_def r1_def)
  then show ?thesis
    using OpHandleNamed e
    by (simp add: extendable_registerPattern compile_cong [OF a] extends_def)
next
  case (OpRebind nm p)
  then show ?thesis using extendable_Rebind [of tbl nm p r ks] by simp
next
  case (OpReset nm)
  show ?thesis
  proof (cases "namedBindings r nm")
    case None
    with OpReset show ?thesis by (simp add: Reset_def)
  next
    case (Some b)
    with OpReset extendable_Rebind [of tbl nm "defaultPattern b" r ks]
    show ?thesis by (simp add: Reset_def)
  qed
next
  case (OpRemove p)
  then show ?thesis by (simp add: extendable_removePattern)
next
  case (OpSetAlias nm e)
  have "extendable (SetAlias tbl nm e r) ks = extendable r ks"
    by (rule extendable_cong) (simp add: SetAlias_def Let_def)
  with OpSetAlias show ?thesis by simp
qed

lemma extendable_run_ops:
  "extendable (run_ops tbl xs r) ks
     = (extendable r ks \<or> (\<exists>ks' \<in> set (history tbl xs r). extends ks' ks))"
proof (induction xs arbitrary: r)
  case Nil
  then show ?case by simp
next
  case (Cons x xs)
  have "extendable (run_ops tbl (x # xs) r) ks
      = (extendable (apply_op tbl x r) ks
          \<or> (\<exists>ks' \<in> set (history tbl xs (apply_op tbl x r)). extends ks' ks))"
    using Cons.IH [of "apply_op tbl x r"] by simp
  also have "\<dots> = ((extendable r ks \<or> (\<exists>ks' \<in> set (compiled_by tbl x r). extends ks' ks))
          \<or> (\<exists>ks' \<in> set (history tbl xs (apply_op tbl x r)). extends ks' ks))"
    by (simp only: extendable_apply_op)
  also have "\<dots> = (extendable r ks \<or> (\<exists>ks' \<in> set (history tbl (x # xs) r). extends ks' ks))"
    by (simp only: history.simps set_append bex_Un disj_assoc)
  finally show ?case .
qed

lemma extendable_history:
  "extendable (run_ops tbl xs NewRouter) ks
     = (\<exists>ks' \<in> set (history tbl xs NewRouter). extends ks' ks)"
proof -
  have "\<not> extendable NewRouter ks"
    by (cases ks) (simp_all add: extendable_def NewRouter_def)
  then show ?thesis by (simp add: extendable_run_ops)
qed

text \<open>The root of a router never holds a handler.\<close>

lemma registered_cong: "root r' = root r \<Longrightarrow> registered r' ks = registered r ks"
  by (simp add: registered_def)

lemma registered_Nil_Rebind: "registered (fst (Rebind tbl nm p r)) [] = registered r []"
proof (cases "namedBindings r nm")
  case None
  then show ?thesis by (simp add: Rebind_def)
next
  case (Some b)
  define r1 where "r1 = removePattern tbl (currentPattern b) r"
  define r2 where "r2 = r1\<lparr>namedBindings := (namedBindings r1)(nm \<mapsto> b\<lparr>currentPattern := p\<rparr>)\<rparr>"
  have "registered r2 [] = registered r1 []" by (rule registered_cong) (simp add: r2_def)
  then have e: "registered r2 [] = registered r []" by (simp add: r1_def registered_removePattern)
  have "fst (Rebind tbl nm p r) = registerPattern tbl p (handler_nb b) r2"
    using Some by (simp add: Rebind_def Let_def r2_def r1_def)
  then show ?thesis using e by (simp add: registered_registerPattern)
qed

lemma registered_Nil_apply_op: "registered (apply_op tbl x r) [] = registered r []"
proof (cases x)
  case (OpHandle p h)
  then show ?thesis by (simp add: Handle_def registered_registerPattern)
next
  case (OpHandleNamed nm p h)
  define r1 where "r1 = r\<lparr>namedBindings := (namedBindings r)(nm \<mapsto>
             \<lparr>defaultPattern = p, currentPattern = p, handler_nb = h\<rparr>),
         bindingOrder := bindingOrder r @ [nm]\<rparr>"
  have e: "registered r1 [] = registered r []" by (rule registered_cong) (simp add: r1_def)
  have "HandleNamed tbl nm p h r = registerPattern tbl p h r1"
    by (simp add: HandleNamed_def r1_def)
  then show ?thesis using OpHandleNamed e by (simp add: registered_registerPattern)
next
  case (OpRebind nm p)
  then show ?thesis by (simp add: registered_Nil_Rebind)
next
  case (OpReset nm)
  then show ?thesis
    by (cases "namedBindings r nm") (simp_all add: Reset_def registered_Nil_Rebind)
next
  case (OpRemove p)
  then show ?thesis by (simp add: registered_removePattern)
next
  case (OpSetAlias nm e)
  have "registered (SetAlias tbl nm e r) [] = registered r []"
    by (rule registered_cong) (simp add: SetAlias_def Let_def)
  with OpSetAlias show ?thesis by simp
qed

lemma root_handler_None: "handler (root (run_ops tbl xs NewRouter)) = None"
proof -
  have "registered (run_ops tbl xs r) [] = registered r []" for r
    by (induction xs arbitrary: r) (simp_all add: registered_Nil_apply_op)
  from this [of NewRouter] show ?thesis by (simp add: registered_def NewRouter_def)
qed

end
